theory Spec2Isabelle
  imports Main "HOL-Library.Sublist"
begin

section \<open>Go strings as byte lists\<close>

text \<open>
  A Go string is a sequence of bytes; it is modelled as a \<open>string\<close> (a list of 8-bit
  characters).  The functions of package \<open>strings\<close> that the parser calls are modelled on
  bytes.  Every call site of \<open>Split\<close> and \<open>SplitN\<close> passes a one-byte separator
  (\<open>","\<close>, \<open>"="\<close>, \<open>"/"\<close>), so the separator is a character here.
\<close>

definition HasPrefix :: "string \<Rightarrow> string \<Rightarrow> bool" where
  "HasPrefix s p = prefix p s"

definition HasSuffix :: "string \<Rightarrow> string \<Rightarrow> bool" where
  "HasSuffix s p = suffix p s"

definition TrimPrefix :: "string \<Rightarrow> string \<Rightarrow> string" where
  "TrimPrefix s p = (if HasPrefix s p then drop (length p) s else s)"

text \<open>\<open>strings.Split(s, sep)\<close>: all pieces between occurrences of the separator; the
  result always has at least one element.\<close>

fun Split :: "string \<Rightarrow> char \<Rightarrow> string list" where
  "Split [] sep = [[]]"
| "Split (c # cs) sep =
     (if c = sep then [] # Split cs sep
      else (case Split cs sep of p # ps \<Rightarrow> (c # p) # ps | [] \<Rightarrow> [[c]]))"

text \<open>\<open>strings.SplitN(s, sep, n)\<close> for \<open>n \<ge> 0\<close>: \<open>n = 0\<close> gives no pieces, otherwise at
  most \<open>n\<close> pieces, the last one being the unsplit remainder.\<close>

fun SplitN :: "string \<Rightarrow> char \<Rightarrow> nat \<Rightarrow> string list" where
  "SplitN s sep 0 = []"
| "SplitN s sep (Suc 0) = [s]"
| "SplitN [] sep (Suc (Suc n)) = [[]]"
| "SplitN (c # cs) sep (Suc (Suc n)) =
     (if c = sep then [] # SplitN cs sep (Suc n)
      else (case SplitN cs sep (Suc (Suc n)) of p # ps \<Rightarrow> (c # p) # ps | [] \<Rightarrow> [[c]]))"

text \<open>\<open>strings.TrimSpace\<close> removes leading and trailing white space as defined by Unicode.
  On bytes these are the six ASCII space characters and the UTF-8 encodings of the other
  code points for which \<open>unicode.IsSpace\<close> holds (U+0085, U+00A0, U+1680, U+2000 to U+200A,
  U+2028, U+2029, U+202F, U+205F, U+3000).\<close>

definition asciiSpace :: "char \<Rightarrow> bool" where
  "asciiSpace c \<longleftrightarrow>
     c = CHR 0x09 \<or> c = CHR 0x0A \<or> c = CHR 0x0B \<or> c = CHR 0x0C \<or> c = CHR 0x0D \<or> c = CHR 0x20"

definition spaceRunes :: "string list" where
  "spaceRunes =
     [[CHR 0x09], [CHR 0x0A], [CHR 0x0B], [CHR 0x0C], [CHR 0x0D], [CHR 0x20],
      [CHR 0xC2, CHR 0x85], [CHR 0xC2, CHR 0xA0],
      [CHR 0xE1, CHR 0x9A, CHR 0x80],
      [CHR 0xE2, CHR 0x80, CHR 0x80], [CHR 0xE2, CHR 0x80, CHR 0x81],
      [CHR 0xE2, CHR 0x80, CHR 0x82], [CHR 0xE2, CHR 0x80, CHR 0x83],
      [CHR 0xE2, CHR 0x80, CHR 0x84], [CHR 0xE2, CHR 0x80, CHR 0x85],
      [CHR 0xE2, CHR 0x80, CHR 0x86], [CHR 0xE2, CHR 0x80, CHR 0x87],
      [CHR 0xE2, CHR 0x80, CHR 0x88], [CHR 0xE2, CHR 0x80, CHR 0x89],
      [CHR 0xE2, CHR 0x80, CHR 0x8A],
      [CHR 0xE2, CHR 0x80, CHR 0xA8], [CHR 0xE2, CHR 0x80, CHR 0xA9],
      [CHR 0xE2, CHR 0x80, CHR 0xAF], [CHR 0xE2, CHR 0x81, CHR 0x9F],
      [CHR 0xE3, CHR 0x80, CHR 0x80]]"

text \<open>Width in bytes of the white-space rune at the start (at the end) of a string, 0 when
  the string does not start (end) with one.\<close>

definition leadingSpace :: "string \<Rightarrow> nat" where
  "leadingSpace s = (case find (\<lambda>w. prefix w s) spaceRunes of Some w \<Rightarrow> length w | None \<Rightarrow> 0)"

definition trailingSpace :: "string \<Rightarrow> nat" where
  "trailingSpace s = (case find (\<lambda>w. suffix w s) spaceRunes of Some w \<Rightarrow> length w | None \<Rightarrow> 0)"

function TrimLeftSpace :: "string \<Rightarrow> string" where
  "TrimLeftSpace s =
     (if leadingSpace s = 0 then s else TrimLeftSpace (drop (leadingSpace s) s))"
  by pat_completeness auto
termination
proof (relation "measure length")
  fix s :: string
  assume "leadingSpace s \<noteq> 0"
  then have "s \<noteq> []"
    by (auto simp: leadingSpace_def spaceRunes_def)
  with \<open>leadingSpace s \<noteq> 0\<close> show "(drop (leadingSpace s) s, s) \<in> measure length"
    by simp
qed simp

function TrimRightSpace :: "string \<Rightarrow> string" where
  "TrimRightSpace s =
     (if trailingSpace s = 0 then s
      else TrimRightSpace (take (length s - trailingSpace s) s))"
  by pat_completeness auto
termination
proof (relation "measure length")
  fix s :: string
  assume "trailingSpace s \<noteq> 0"
  then have "s \<noteq> []"
    by (auto simp: trailingSpace_def spaceRunes_def)
  with \<open>trailingSpace s \<noteq> 0\<close> show "(take (length s - trailingSpace s) s, s) \<in> measure length"
    by simp
qed simp

declare TrimLeftSpace.simps [simp del] TrimRightSpace.simps [simp del]

definition TrimSpace :: "string \<Rightarrow> string" where
  "TrimSpace s = TrimRightSpace (TrimLeftSpace s)"


section \<open>The parser (package \<open>parser\<close>)\<close>

text \<open>Every error return of the parser is a constructor; a run-time panic of Go (an index
  out of range) is an error value too, so that no branch of the source is lost.\<close>

datatype error =
    InvalidCCRNFormat
  | InvalidFieldFormat string
  | MissingRequiredField
  | InvalidURNFormat
  | InvalidURNTemplate
  | TooFewURNSegments
  | SegmentCountMismatch string string
  | SegmentMismatch string string
  | IndexOutOfRange

subsection \<open>\<open>parseCCRNFields\<close>\<close>

text \<open>The quote stripping of \<open>parseCCRNFields\<close>:
  \<^verbatim>\<open>if len(value) >= 2 && value[0] == '"' && value[len(value)-1] == '"' { value = value[1 : len(value)-1] }\<close>\<close>

definition stripQuotes :: "string \<Rightarrow> string" where
  "stripQuotes value =
     (if 2 \<le> length value \<and> value ! 0 = CHR 0x22 \<and> value ! (length value - 1) = CHR 0x22
      then take (length value - 2) (drop 1 value) else value)"

text \<open>The loop over \<open>fieldEntries\<close>, with the map \<open>fields\<close> passed along.\<close>

fun parseEntries :: "string list \<Rightarrow> (string \<rightharpoonup> string) \<Rightarrow> error + (string \<rightharpoonup> string)" where
  "parseEntries [] fields = Inr fields"
| "parseEntries (e # es) fields =
     (let entry = TrimSpace e in
      if entry = [] then parseEntries es fields
      else
        let parts = SplitN entry CHR ''='' 2 in
        if length parts \<noteq> 2 then Inl (InvalidFieldFormat entry)
        else
          let key = TrimSpace (parts ! 0);
              value = stripQuotes (TrimSpace (parts ! 1))
          in parseEntries es (fields(key \<mapsto> value)))"

text \<open>The key \<open>parseCCRNFields\<close> reads from one entry of the list, and strings without
  white space at either end.\<close>

definition entryKey :: "string \<Rightarrow> string" where
  "entryKey e = TrimSpace (SplitN (TrimSpace e) CHR ''='' 2 ! 0)"

definition trimmed :: "string \<Rightarrow> bool" where
  "trimmed s \<longleftrightarrow> leadingSpace s = 0 \<and> trailingSpace s = 0"

definition parseCCRNFields :: "string \<Rightarrow> error + (string \<rightharpoonup> string)" where
  "parseCCRNFields ccrn =
     (if \<not> HasPrefix ccrn ''ccrn='' then Inl InvalidCCRNFormat
      else
        let fieldsPart = TrimSpace ccrn;
            fieldEntries = Split fieldsPart CHR '',''
        in case parseEntries fieldEntries Map.empty of
             Inl err \<Rightarrow> Inl err
           | Inr fields \<Rightarrow>
               if fields ''ccrn'' = None then Inl MissingRequiredField else Inr fields)"

subsection \<open>\<open>parseURNCCRNField\<close> and \<open>parseURNFields\<close>\<close>

definition parseURNCCRNField :: "string \<Rightarrow> error + string" where
  "parseURNCCRNField urn =
     (let body = TrimPrefix urn ''urn:ccrn:'';
          parts = Split body CHR ''/''
      in if length parts < 3 then Inl TooFewURNSegments
         else Inr (parts ! 0 @ ''/'' @ parts ! 1))"

text \<open>The loop \<^verbatim>\<open>for i, t := range templateParts\<close> of \<open>parseURNFields\<close>; reading
  \<open>parts[i]\<close> beyond the slice is Go's index panic.\<close>

fun matchSegments ::
  "nat \<Rightarrow> string list \<Rightarrow> string list \<Rightarrow> (string \<rightharpoonup> string) \<Rightarrow> error + (string \<rightharpoonup> string)" where
  "matchSegments i [] parts fields = Inr fields"
| "matchSegments i (t # ts) parts fields =
     (if \<not> i < length parts then Inl IndexOutOfRange
      else if HasPrefix t ''<'' \<and> HasSuffix t ''>'' then
        matchSegments (Suc i) ts parts (fields(take (length t - 2) (drop 1 t) \<mapsto> parts ! i))
      else if t = ''<ccrn>'' then
        matchSegments (Suc i) ts parts (fields(''ccrn'' \<mapsto> parts ! i))
      else if t \<noteq> parts ! i then Inl (SegmentMismatch (parts ! i) t)
      else matchSegments (Suc i) ts parts fields)"

text \<open>In \<open>parseURNFields\<close> the slice \<open>parts\<close> has \<open>len(tmpParts) - 1\<close> elements: the first is
  \<open>tmpParts[0] + "/" + tmpParts[1]\<close> (a panic when \<open>tmpParts\<close> has a single element), the
  others are \<open>tmpParts[2:]\<close> (an empty element stays the empty string).\<close>

definition parseURNFields :: "string \<Rightarrow> string \<Rightarrow> error + (string \<rightharpoonup> string)" where
  "parseURNFields urn urnTemplate =
     (if \<not> HasPrefix urn ''urn:ccrn:'' then Inl InvalidURNFormat
      else if \<not> HasPrefix urnTemplate ''urn:ccrn:'' then Inl InvalidURNTemplate
      else
        let body = TrimPrefix urn ''urn:ccrn:'';
            templateBody = TrimPrefix urnTemplate ''urn:ccrn:'';
            templateParts = Split templateBody CHR ''/'';
            tmpParts = SplitN body CHR ''/'' (length templateParts)
        in if length tmpParts < 2 then Inl IndexOutOfRange
           else
             let parts = (tmpParts ! 0 @ ''/'' @ tmpParts ! 1) # drop 2 tmpParts in
             if length parts < length templateParts then Inl (SegmentCountMismatch urnTemplate urn)
             else
               case matchSegments 0 templateParts parts Map.empty of
                 Inl err \<Rightarrow> Inl err
               | Inr fields \<Rightarrow>
                   if fields ''ccrn'' = None then Inl MissingRequiredField else Inr fields)"

section \<open>\<open>ParsedResource\<close> (package \<open>apis\<close>)\<close>

record ParsedResource =
  Format :: string
  Fields :: "string \<rightharpoonup> string"
  Raw :: string
  UrnTemplate :: string

text \<open>\<open>strings.Replace(s, old, new, 1)\<close>: the first occurrence of \<open>old\<close> in \<open>s\<close> is replaced
  by \<open>new\<close>; without an occurrence \<open>s\<close> is returned.\<close>

fun Replace1 :: "string \<Rightarrow> string \<Rightarrow> string \<Rightarrow> string" where
  "Replace1 [] old new = (if old = [] then new else [])"
| "Replace1 (c # cs) old new =
     (if prefix old (c # cs) then new @ drop (length old) (c # cs)
      else c # Replace1 cs old new)"

text \<open>Go does not specify the order in which \<^verbatim>\<open>range p.Fields\<close> visits a map.  The order
  chosen by the run time is an argument of the model: a list of the entries of the map,
  each key once.\<close>

definition rangeOrder :: "(string \<times> string) list \<Rightarrow> (string \<rightharpoonup> string) \<Rightarrow> bool" where
  "rangeOrder kvs m \<longleftrightarrow> distinct (map fst kvs) \<and> map_of kvs = m"

definition substitute :: "(string \<times> string) list \<Rightarrow> string \<Rightarrow> string" where
  "substitute kvs template =
     fold (\<lambda>(key, value) t. Replace1 t (''<'' @ key @ ''>'') value) kvs template"

definition URN :: "ParsedResource \<Rightarrow> (string \<times> string) list \<Rightarrow> string \<Rightarrow> string" where
  "URN p kvs template =
     (if template = [] then
        (if UrnTemplate p \<noteq> [] then substitute kvs (UrnTemplate p) else [])
      else substitute kvs template)"


section \<open>Templates as sequences of literals and placeholders\<close>

text \<open>A template in which angle brackets occur only around placeholder names is a
  sequence of literal bytes and placeholders.  \<open>templateString\<close> writes such a sequence as the
  string the code works on.\<close>

datatype segment = Lit char | Placeholder string

fun templateString :: "segment list \<Rightarrow> string" where
  "templateString [] = []"
| "templateString (Lit c # ts) = c # templateString ts"
| "templateString (Placeholder name # ts) = ''<'' @ name @ ''>'' @ templateString ts"

definition plain :: "string \<Rightarrow> bool" where
  "plain s \<longleftrightarrow> CHR ''<'' \<notin> set s \<and> CHR ''>'' \<notin> set s"

fun wellFormed :: "segment list \<Rightarrow> bool" where
  "wellFormed [] = True"
| "wellFormed (Lit c # ts) = (c \<noteq> CHR ''<'' \<and> c \<noteq> CHR ''>'' \<and> wellFormed ts)"
| "wellFormed (Placeholder name # ts) = (plain name \<and> wellFormed ts)"

text \<open>Replacing the first placeholder of a given name by a value, on the sequence.\<close>

fun replaceFirst :: "string \<Rightarrow> string \<Rightarrow> segment list \<Rightarrow> segment list" where
  "replaceFirst key v [] = []"
| "replaceFirst key v (Lit c # ts) = Lit c # replaceFirst key v ts"
| "replaceFirst key v (Placeholder name # ts) =
     (if name = key then map Lit v @ ts else Placeholder name # replaceFirst key v ts)"

text \<open>Rendering as the specification words it: every placeholder \<open><name>\<close> is substituted
  with \<open>fields[name]\<close>, the first occurrence only per placeholder; a placeholder without a
  field stays as it is; values are inserted literally.  \<open>used\<close> lists the names already
  substituted.\<close>

fun renderURN :: "(string \<rightharpoonup> string) \<Rightarrow> string list \<Rightarrow> segment list \<Rightarrow> string" where
  "renderURN m used [] = []"
| "renderURN m used (Lit c # ts) = c # renderURN m used ts"
| "renderURN m used (Placeholder name # ts) =
     (case m name of
        None \<Rightarrow> ''<'' @ name @ ''>'' @ renderURN m used ts
      | Some v \<Rightarrow>
          if name \<in> set used then ''<'' @ name @ ''>'' @ renderURN m used ts
          else v @ renderURN m (name # used) ts)"

section \<open>The filesystem backend (package \<open>validation\<close>)\<close>

subsection \<open>Data\<close>

text \<open>The OpenAPI schema of a version is opaque to the backend; it is kept as a string.\<close>

type_synonym JSONSchemaProps = string

record CustomResourceValidation =
  OpenAPIV3Schema :: "JSONSchemaProps option"

record CustomResourceDefinitionVersion =
  versionName :: string
  Served :: bool
  Schema :: "CustomResourceValidation option"

text \<open>A custom resource definition: \<open>typeKind\<close> is \<open>crd.Kind\<close>, \<open>metaName\<close> is \<open>crd.Name\<close>,
  \<open>Annotations\<close> is \<open>None\<close> for a nil map, and the \<open>spec\<close> and \<open>names\<close> fields are
  \<open>crd.Spec.Group\<close>, \<open>crd.Spec.Versions\<close> and \<open>crd.Spec.Names.*\<close>.\<close>

record CustomResourceDefinition =
  typeKind :: string
  metaName :: string
  Annotations :: "(string \<rightharpoonup> string) option"
  specGroup :: string
  namesPlural :: string
  namesSingular :: string
  namesKind :: string
  specVersions :: "CustomResourceDefinitionVersion list"

record CRDInfo =
  infoName :: string
  infoPlural :: string
  infoSingular :: string
  infoGroup :: string
  infoKind :: string
  infoVersion :: string
  infoSchema :: "JSONSchemaProps option"
  URNFormat :: string

datatype structureError =
    WrongKind string
  | EmptyGroup
  | EmptyKind
  | NoVersions
  | NoValidVersion

datatype documentError =
    ParseYAMLFailed
  | InvalidCRDStructure structureError

datatype loadError =
    ReadFileFailed string
  | SplitFailed string
  | DocumentFailed string nat documentError

datatype backendError =
    GlobFailed string
  | NoFilesFound string
  | FailedToLoadAny "loadError list"

datatype validatorError = NoSchemaAvailable | ValidatorCreationFailed

datatype panic = NilPointerDereference

record CRDLoadingResult =
  ProcessedFiles :: nat
  ProcessedCRDs :: nat
  SkippedCRDs :: nat
  ErrorCount :: nat
  Errors :: "loadError list"
  LoadedCRDKeys :: "string list"

record 'v FilesystemBackend =
  crds :: "string \<rightharpoonup> CRDInfo"
  crdsByFile :: "string \<rightharpoonup> CustomResourceDefinition list"
  validators :: "string \<rightharpoonup> 'v"
  ccrnGroup :: string
  loadedPaths :: "string list"

text \<open>What the backend asks of the file system and of the libraries it calls:
  \<open>filepath.Glob\<close> (\<open>None\<close> for a malformed pattern), \<open>os.ReadFile\<close> (\<open>None\<close> when the
  file cannot be read), the lines a \<open>bufio.Scanner\<close> yields on a text together with whether
  \<open>scanner.Err()\<close> is set afterwards, \<open>yaml.Unmarshal\<close> into a definition, the
  construction of a schema validator, and \<open>strings.ToLower\<close> (which follows the Unicode
  case tables).\<close>

record 'v world =
  Glob :: "string \<Rightarrow> string list option"
  ReadFile :: "string \<Rightarrow> string option"
  ScanLines :: "string \<Rightarrow> string list \<times> bool"
  Unmarshal :: "string \<Rightarrow> CustomResourceDefinition option"
  NewSchemaValidator :: "JSONSchemaProps \<Rightarrow> 'v option"
  ToLower :: "string \<Rightarrow> string"

subsection \<open>Helpers\<close>

definition CRDKind :: string where
  "CRDKind = ''CustomResourceDefinition''"

text \<open>What \<open>strings.ToLower\<close> does on a string of ASCII characters: the letters \<open>A\<close> to \<open>Z\<close>
  are lowered.  The batches at the end of this section use it.\<close>

definition asciiToLower :: "string \<Rightarrow> string" where
  "asciiToLower s =
     map (\<lambda>c. if 65 \<le> (of_char c :: nat) \<and> (of_char c :: nat) \<le> 90
               then char_of (of_char c + 32 :: nat) else c) s"

text \<open>\<open>filepath.Ext\<close>: the suffix from the last dot of the last path element.\<close>

definition Ext :: "string \<Rightarrow> string" where
  "Ext path =
     (let r = takeWhile (\<lambda>c. c \<noteq> CHR ''/'') (rev path)
      in if CHR ''.'' \<in> set r then CHR ''.'' # rev (takeWhile (\<lambda>c. c \<noteq> CHR ''.'') r) else [])"

definition isYAMLFile :: "'v world \<Rightarrow> string \<Rightarrow> bool" where
  "isYAMLFile w filePath =
     (let ext = ToLower w (Ext filePath) in ext = ''.yaml'' \<or> ext = ''.yml'')"

definition getCRDKey :: "'v world \<Rightarrow> string \<Rightarrow> string \<Rightarrow> string \<Rightarrow> string" where
  "getCRDKey w grp version kind = ToLower w (kind @ ''.'' @ grp @ ''/'' @ version)"

definition isEmptyDocument :: "string \<Rightarrow> bool" where
  "isEmptyDocument document =
     (let trimmed = TrimSpace document
      in if trimmed = [] then True
         else list_all (\<lambda>line. \<not> (TrimSpace line \<noteq> [] \<and> \<not> HasPrefix (TrimSpace line) ''#''))
                (Split trimmed CHR 0x0A))"

text \<open>The scanning loop of \<open>splitYAMLDocuments\<close>: \<open>cur\<close> is \<open>currentDocument\<close>.\<close>

fun splitLines :: "string list \<Rightarrow> string \<Rightarrow> string list \<Rightarrow> string list" where
  "splitLines [] cur documents =
     (if cur \<noteq> [] then documents @ [TrimSpace cur] else documents)"
| "splitLines (line # ls) cur documents =
     (if TrimSpace line = ''---'' then
        (if cur \<noteq> [] then splitLines ls [] (documents @ [TrimSpace cur])
         else splitLines ls cur documents)
      else splitLines ls (cur @ line @ [CHR 0x0A]) documents)"

definition splitYAMLDocuments :: "'v world \<Rightarrow> string \<Rightarrow> string list option" where
  "splitYAMLDocuments w content =
     (if TrimSpace content = [] then Some []
      else
        let (ls, failed) = ScanLines w content;
            documents = splitLines ls [] []
        in if failed then None else Some documents)"

definition hasValidSchema :: "CustomResourceDefinitionVersion \<Rightarrow> bool" where
  "hasValidSchema version =
     (versionName version \<noteq> [] \<and>
      (case Schema version of None \<Rightarrow> False | Some s \<Rightarrow> OpenAPIV3Schema s \<noteq> None))"

definition validateCRDStructure :: "CustomResourceDefinition \<Rightarrow> structureError option" where
  "validateCRDStructure crd =
     (if typeKind crd \<noteq> CRDKind then Some (WrongKind (typeKind crd))
      else if specGroup crd = [] then Some EmptyGroup
      else if namesKind crd = [] then Some EmptyKind
      else if specVersions crd = [] then Some NoVersions
      else if \<not> list_ex hasValidSchema (specVersions crd) then Some NoValidVersion
      else None)"

definition isCCRNRelevant :: "'v FilesystemBackend \<Rightarrow> CustomResourceDefinition \<Rightarrow> bool" where
  "isCCRNRelevant fb crd = sublist (ccrnGroup fb) (specGroup crd)"

definition extractURNTemplate :: "CustomResourceDefinition \<Rightarrow> string \<Rightarrow> string" where
  "extractURNTemplate crd version =
     (case Annotations crd of
        None \<Rightarrow> []
      | Some annotations \<Rightarrow>
          (case annotations (''ccrn/'' @ version @ ''.urn-template'') of
             Some urnFormat \<Rightarrow> urnFormat
           | None \<Rightarrow> []))"

definition createSchemaValidator ::
  "'v world \<Rightarrow> 'v FilesystemBackend \<Rightarrow> string \<Rightarrow> CustomResourceDefinitionVersion
     \<Rightarrow> validatorError + 'v FilesystemBackend" where
  "createSchemaValidator w fb crdKey version =
     (case Schema version of
        None \<Rightarrow> Inl NoSchemaAvailable
      | Some s \<Rightarrow>
          (case OpenAPIV3Schema s of
             None \<Rightarrow> Inl NoSchemaAvailable
           | Some props \<Rightarrow>
               (case NewSchemaValidator w props of
                  None \<Rightarrow> Inl ValidatorCreationFailed
                | Some validator \<Rightarrow>
                    Inr (fb\<lparr>validators := (validators fb)(crdKey \<mapsto> validator)\<rparr>))))"

subsection \<open>\<open>storeCRD\<close>, \<open>processSingleDocument\<close>, \<open>processFile\<close>, \<open>LoadCRDs\<close>\<close>

text \<open>The loop of \<open>storeCRD\<close> over \<open>crd.Spec.Versions\<close>.  Building \<open>crdInfo\<close> reads
  \<open>version.Schema.OpenAPIV3Schema\<close>, a nil pointer dereference when \<open>version.Schema\<close> is nil.
  A validator that cannot be built is logged and skipped.  \<open>storeCRD\<close> has no error return
  other than nil.\<close>

fun storeVersions ::
  "'v world \<Rightarrow> CustomResourceDefinition \<Rightarrow> CustomResourceDefinitionVersion list
     \<Rightarrow> 'v FilesystemBackend \<Rightarrow> panic + 'v FilesystemBackend" where
  "storeVersions w crd [] fb = Inr fb"
| "storeVersions w crd (version # vs) fb =
     (if \<not> Served version then storeVersions w crd vs fb
      else
        (case Schema version of
           None \<Rightarrow> Inl NilPointerDereference
         | Some s \<Rightarrow>
             let crdKey = getCRDKey w (specGroup crd) (versionName version) (namesKind crd);
                 urnFormat = extractURNTemplate crd (versionName version);
                 crdInfo = \<lparr>infoName = metaName crd, infoPlural = namesPlural crd,
                            infoSingular = namesSingular crd, infoGroup = specGroup crd,
                            infoKind = namesKind crd, infoVersion = versionName version,
                            infoSchema = OpenAPIV3Schema s, URNFormat = urnFormat\<rparr>;
                 fb1 = fb\<lparr>crds := (crds fb)(crdKey \<mapsto> crdInfo)\<rparr>;
                 fb2 = (case createSchemaValidator w fb1 crdKey version of
                          Inl err \<Rightarrow> fb1
                        | Inr fb' \<Rightarrow> fb')
             in storeVersions w crd vs fb2))"

definition storeCRD ::
  "'v world \<Rightarrow> CustomResourceDefinition \<Rightarrow> 'v FilesystemBackend \<Rightarrow> panic + 'v FilesystemBackend" where
  "storeCRD w crd fb = storeVersions w crd (specVersions crd) fb"

text \<open>\<open>processSingleDocument\<close> returns the definition (\<open>Some crd\<close>), nil for a definition
  of another group (\<open>None\<close>), or an error.\<close>

definition processSingleDocument ::
  "'v world \<Rightarrow> 'v FilesystemBackend \<Rightarrow> string \<Rightarrow> string
     \<Rightarrow> panic + ('v FilesystemBackend \<times> (documentError + CustomResourceDefinition option))" where
  "processSingleDocument w fb document filePath =
     (case Unmarshal w document of
        None \<Rightarrow> Inr (fb, Inl ParseYAMLFailed)
      | Some crd \<Rightarrow>
          (case validateCRDStructure crd of
             Some err \<Rightarrow> Inr (fb, Inl (InvalidCRDStructure err))
           | None \<Rightarrow>
               if \<not> isCCRNRelevant fb crd then Inr (fb, Inr None)
               else
                 (case storeCRD w crd fb of
                    Inl p \<Rightarrow> Inl p
                  | Inr fb' \<Rightarrow> Inr (fb', Inr (Some crd)))))"

text \<open>The loop of \<open>processFile\<close> over the documents of one file; \<open>i\<close> is the index of the
  document, \<open>loadedCRDs\<close> the definitions loaded from this file so far.\<close>

fun processDocuments ::
  "'v world \<Rightarrow> string \<Rightarrow> nat \<Rightarrow> string list
     \<Rightarrow> 'v FilesystemBackend \<times> CustomResourceDefinition list \<times> CRDLoadingResult
     \<Rightarrow> panic + ('v FilesystemBackend \<times> CustomResourceDefinition list \<times> CRDLoadingResult)" where
  "processDocuments w filePath i [] st = Inr st"
| "processDocuments w filePath i (document # ds) (fb, loadedCRDs, result) =
     (if isEmptyDocument document then processDocuments w filePath (Suc i) ds (fb, loadedCRDs, result)
      else
        (case processSingleDocument w fb document filePath of
           Inl p \<Rightarrow> Inl p
         | Inr (fb', Inl err) \<Rightarrow>
             processDocuments w filePath (Suc i) ds
               (fb', loadedCRDs,
                result\<lparr>Errors := Errors result @ [DocumentFailed filePath i err],
                       ErrorCount := ErrorCount result + 1\<rparr>)
         | Inr (fb', Inr (Some crd)) \<Rightarrow>
             processDocuments w filePath (Suc i) ds
               (fb', loadedCRDs @ [crd],
                result\<lparr>ProcessedCRDs := ProcessedCRDs result + 1,
                       LoadedCRDKeys := LoadedCRDKeys result @
                         map (\<lambda>version. getCRDKey w (specGroup crd) (versionName version) (namesKind crd))
                           (filter Served (specVersions crd))\<rparr>)
         | Inr (fb', Inr None) \<Rightarrow>
             processDocuments w filePath (Suc i) ds
               (fb', loadedCRDs, result\<lparr>SkippedCRDs := SkippedCRDs result + 1\<rparr>)))"

definition processFile ::
  "'v world \<Rightarrow> string \<Rightarrow> 'v FilesystemBackend \<times> CRDLoadingResult
     \<Rightarrow> panic + ('v FilesystemBackend \<times> CRDLoadingResult)" where
  "processFile w filePath st =
     (case st of (fb, result0) \<Rightarrow>
        let result = result0\<lparr>ProcessedFiles := ProcessedFiles result0 + 1\<rparr> in
        (case ReadFile w filePath of
           None \<Rightarrow>
             Inr (fb, result\<lparr>Errors := Errors result @ [ReadFileFailed filePath],
                             ErrorCount := ErrorCount result + 1\<rparr>)
         | Some fileContent \<Rightarrow>
             (case splitYAMLDocuments w fileContent of
                None \<Rightarrow>
                  Inr (fb, result\<lparr>Errors := Errors result @ [SplitFailed filePath],
                                  ErrorCount := ErrorCount result + 1\<rparr>)
              | Some documents \<Rightarrow>
                  (case processDocuments w filePath 0 documents (fb, [], result) of
                     Inl p \<Rightarrow> Inl p
                   | Inr (fb', loadedCRDs, result') \<Rightarrow>
                       if loadedCRDs \<noteq> [] then
                         Inr (fb'\<lparr>crdsByFile := (crdsByFile fb')(filePath \<mapsto> loadedCRDs)\<rparr>, result')
                       else Inr (fb', result')))))"

text \<open>The loop of \<open>LoadCRDs\<close> over the matched files.\<close>

fun processFiles ::
  "'v world \<Rightarrow> string list \<Rightarrow> 'v FilesystemBackend \<times> CRDLoadingResult
     \<Rightarrow> panic + ('v FilesystemBackend \<times> CRDLoadingResult)" where
  "processFiles w [] st = Inr st"
| "processFiles w (filePath # fs) st =
     (if isYAMLFile w filePath then
        (case processFile w filePath st of
           Inl p \<Rightarrow> Inl p
         | Inr st' \<Rightarrow> processFiles w fs st')
      else processFiles w fs st)"

definition newResult :: CRDLoadingResult where
  "newResult = \<lparr>ProcessedFiles = 0, ProcessedCRDs = 0, SkippedCRDs = 0, ErrorCount = 0,
                Errors = [], LoadedCRDKeys = []\<rparr>"

text \<open>\<open>LoadCRDs\<close> returns the backend and Go's error value (\<open>None\<close> is nil).\<close>

definition LoadCRDs ::
  "'v world \<Rightarrow> string \<Rightarrow> 'v FilesystemBackend
     \<Rightarrow> panic + ('v FilesystemBackend \<times> backendError option)" where
  "LoadCRDs w pattern fb =
     (case Glob w pattern of
        None \<Rightarrow> Inr (fb, Some (GlobFailed pattern))
      | Some matchedFiles \<Rightarrow>
          if matchedFiles = [] then Inr (fb, Some (NoFilesFound pattern))
          else
            (case processFiles w matchedFiles (fb, newResult) of
               Inl p \<Rightarrow> Inl p
             | Inr (fb', result) \<Rightarrow>
                 let fb'' = fb'\<lparr>loadedPaths := loadedPaths fb' @ [pattern]\<rparr> in
                 if ProcessedCRDs result = 0 \<and> Errors result \<noteq> []
                 then Inr (fb'', Some (FailedToLoadAny (Errors result)))
                 else Inr (fb'', None)))"

subsection \<open>What a batch of documents contains\<close>

text \<open>The documents of a file, when it can be read and split.\<close>

definition documentsOf :: "'v world \<Rightarrow> string \<Rightarrow> string list option" where
  "documentsOf w filePath =
     (case ReadFile w filePath of None \<Rightarrow> None | Some content \<Rightarrow> splitYAMLDocuments w content)"

text \<open>A document is rejected when it is not empty and is not a structurally valid
  definition; it is loadable when it is a valid definition of the configured group.\<close>

definition rejected :: "'v world \<Rightarrow> string \<Rightarrow> bool" where
  "rejected w document \<longleftrightarrow>
     \<not> isEmptyDocument document \<and>
     (case Unmarshal w document of None \<Rightarrow> True | Some crd \<Rightarrow> validateCRDStructure crd \<noteq> None)"

definition loadable :: "'v world \<Rightarrow> string \<Rightarrow> string \<Rightarrow> bool" where
  "loadable w grp document \<longleftrightarrow>
     \<not> isEmptyDocument document \<and>
     (case Unmarshal w document of
        None \<Rightarrow> False
      | Some crd \<Rightarrow> validateCRDStructure crd = None \<and> sublist grp (specGroup crd))"

text \<open>Over the YAML files of a batch: the number of loadable documents, and the number of
  rejections (a file that cannot be read or split counts once, every rejected document
  once).\<close>

fun loadableCount :: "'v world \<Rightarrow> string \<Rightarrow> string list \<Rightarrow> nat" where
  "loadableCount w grp [] = 0"
| "loadableCount w grp (filePath # fs) =
     (if isYAMLFile w filePath then
        (case documentsOf w filePath of
           None \<Rightarrow> 0
         | Some ds \<Rightarrow> length (filter (loadable w grp) ds))
      else 0) + loadableCount w grp fs"

fun rejectionCount :: "'v world \<Rightarrow> string list \<Rightarrow> nat" where
  "rejectionCount w [] = 0"
| "rejectionCount w (filePath # fs) =
     (if isYAMLFile w filePath then
        (case documentsOf w filePath of
           None \<Rightarrow> 1
         | Some ds \<Rightarrow> length (filter (rejected w) ds))
      else 0) + rejectionCount w fs"

text \<open>\<open>storeCRD\<close> reads \<open>version.Schema.OpenAPIV3Schema\<close> of every served version.  A
  definition can be stored when each of its served versions has a \<open>schema\<close> object; a
  document can be stored when it is not a loadable definition or its definition can be; a
  batch can be stored when every document of its YAML files can be.\<close>

definition servedVersionsHaveSchema :: "CustomResourceDefinition \<Rightarrow> bool" where
  "servedVersionsHaveSchema crd =
     list_all (\<lambda>version. Served version \<longrightarrow> Schema version \<noteq> None) (specVersions crd)"

definition storable :: "'v world \<Rightarrow> string \<Rightarrow> string \<Rightarrow> bool" where
  "storable w grp document \<longleftrightarrow>
     (case Unmarshal w document of
        None \<Rightarrow> True
      | Some crd \<Rightarrow> loadable w grp document \<longrightarrow> servedVersionsHaveSchema crd)"

fun storableBatch :: "'v world \<Rightarrow> string \<Rightarrow> string list \<Rightarrow> bool" where
  "storableBatch w grp [] = True"
| "storableBatch w grp (filePath # fs) =
     ((if isYAMLFile w filePath then
         (case documentsOf w filePath of
            None \<Rightarrow> True
          | Some ds \<Rightarrow> list_all (storable w grp) ds)
       else True) \<and> storableBatch w grp fs)"

subsection \<open>A small batch\<close>

text \<open>\<open>NewOfflineBackend\<close> creates a backend with empty maps.\<close>

definition NewOfflineBackend :: "string \<Rightarrow> 'v FilesystemBackend" where
  "NewOfflineBackend grp =
     \<lparr>crds = Map.empty, crdsByFile = Map.empty, validators = Map.empty, ccrnGroup = grp,
      loadedPaths = []\<rparr>"

text \<open>A definition like the one of the test data (\<open>testresource.tr.ccrn.example.com/v1\<close>), a
  directory with one file that holds this definition and a malformed document, and a
  directory without files.\<close>

definition minimalCRD :: CustomResourceDefinition where
  "minimalCRD =
     \<lparr>typeKind = ''CustomResourceDefinition'', metaName = ''testresources.tr.ccrn.example.com'',
      Annotations = None, specGroup = ''tr.ccrn.example.com'', namesPlural = ''testresources'',
      namesSingular = ''testresource'', namesKind = ''TestResource'',
      specVersions = [\<lparr>versionName = ''v1'', Served = True,
                         Schema = Some \<lparr>OpenAPIV3Schema = Some ''type: object''\<rparr>\<rparr>]\<rparr>"

definition oneGoodOneBad :: "string world" where
  "oneGoodOneBad =
     \<lparr>Glob = (\<lambda>pattern. if pattern = ''crds/*.yaml'' then Some [''crds/a.yaml''] else Some []),
      ReadFile = (\<lambda>filePath. if filePath = ''crds/a.yaml''
                   then Some (''good'' @ [CHR 0x0A] @ ''---'' @ [CHR 0x0A] @ ''bad'') else None),
      ScanLines = (\<lambda>content. (Split content (CHR 0x0A), False)),
      Unmarshal = (\<lambda>document. if document = ''good'' then Some minimalCRD else None),
      NewSchemaValidator = (\<lambda>props. Some props),
      ToLower = asciiToLower\<rparr>"

definition emptyDirectory :: "string world" where
  "emptyDirectory =
     \<lparr>Glob = (\<lambda>pattern. Some []),
      ReadFile = (\<lambda>filePath. None),
      ScanLines = (\<lambda>content. ([], False)),
      Unmarshal = (\<lambda>document. None),
      NewSchemaValidator = (\<lambda>props. Some props),
      ToLower = asciiToLower\<rparr>"

section \<open>Facts about splitting\<close>

lemma Split_nonempty: "Split s sep \<noteq> []"
  by (induction s) (auto split: list.splits)

lemma SplitN_length_le: "length (SplitN s sep n) \<le> n"
  by (induction s sep n rule: SplitN.induct) (auto split: list.splits)

lemma SplitN_nonempty: "0 < n \<Longrightarrow> SplitN s sep n \<noteq> []"
  by (induction s sep n rule: SplitN.induct) (auto split: list.splits)

lemma Split_skip: "sep \<notin> set p \<Longrightarrow> Split (p @ sep # r) sep = p # Split r sep"
  by (induction p) (auto split: list.splits)

lemma Split_no_sep: "sep \<notin> set p \<Longrightarrow> Split p sep = [p]"
  by (induction p) (auto split: list.splits)

lemma Split_Cons2D:
  "Split s sep = p # q # ps \<Longrightarrow> \<exists>r. s = p @ sep # r \<and> sep \<notin> set p \<and> Split r sep = q # ps"
proof (induction s arbitrary: p)
  case Nil
  then show ?case by simp
next
  case (Cons c cs)
  show ?case
  proof (cases "c = sep")
    case True
    with Cons.prems show ?thesis by auto
  next
    case False
    with Cons.prems obtain p' where p': "Split cs sep = p' # q # ps" "p = c # p'"
      by (auto split: list.splits)
    from Cons.IH[OF p'(1)] obtain r where "cs = p' @ sep # r" "sep \<notin> set p'" "Split r sep = q # ps"
      by blast
    with False p' show ?thesis by auto
  qed
qed

lemma SplitN_2_skip: "sep \<notin> set p \<Longrightarrow> SplitN (p @ sep # r) sep 2 = [p, r]"
  by (induction p) (auto simp: numeral_2_eq_2 split: list.splits)

lemma SplitN_2_no_sep: "sep \<notin> set p \<Longrightarrow> SplitN p sep 2 = [p]"
  by (induction p) (auto simp: numeral_2_eq_2 split: list.splits)

lemma TrimPrefix_append: "TrimPrefix (p @ s) p = s"
  by (simp add: TrimPrefix_def HasPrefix_def)

section \<open>The URN parser\<close>

text \<open>\<open>parts\<close> has one element less than \<open>tmpParts\<close>, and \<open>tmpParts\<close> has at most as many
  elements as \<open>templateParts\<close>: the length check of \<open>parseURNFields\<close> rejects every input that
  gets that far, so the function returns no field mapping at all.\<close>

lemma parseURNFields_not_Inr: "parseURNFields urn urnTemplate \<noteq> Inr m"
  using SplitN_length_le[of "TrimPrefix urn ''urn:ccrn:''" "CHR ''/''"
      "length (Split (TrimPrefix urnTemplate ''urn:ccrn:'') CHR ''/'')"]
  by (auto simp: parseURNFields_def Let_def split: sum.splits)

lemma parseURNFields_cases:
  assumes "HasPrefix urn ''urn:ccrn:''" and "HasPrefix urnTemplate ''urn:ccrn:''"
  shows "parseURNFields urn urnTemplate = Inl IndexOutOfRange \<or>
         parseURNFields urn urnTemplate = Inl (SegmentCountMismatch urnTemplate urn)"
  using assms SplitN_length_le[of "TrimPrefix urn ''urn:ccrn:''" "CHR ''/''"
      "length (Split (TrimPrefix urnTemplate ''urn:ccrn:'') CHR ''/'')"]
  by (auto simp: parseURNFields_def Let_def)

text \<open>Claim C5 (type-key invariant).  The bootstrap parse \<open>parseURNCCRNField\<close> succeeds
  exactly on the URNs whose body is \<open>A/B/rest\<close> with slash-free \<open>A\<close> and \<open>B\<close>, and the type
  key it returns is exactly \<open>A/B\<close>: the first two slash-delimited segments of the body joined
  by a slash.  No template takes part in it.  (The template parse \<open>parseURNFields\<close> returns no
  mapping at all, see \<open>parseURNFields_not_Inr\<close>, so there is no type key of a template parse
  to speak of.)\<close>

theorem type_key_invariant:
  "parseURNCCRNField urn = Inr key \<longleftrightarrow>
     (\<exists>A B rest. CHR ''/'' \<notin> set A \<and> CHR ''/'' \<notin> set B \<and>
        TrimPrefix urn ''urn:ccrn:'' = A @ ''/'' @ B @ ''/'' @ rest \<and> key = A @ ''/'' @ B)"
proof
  let ?body = "TrimPrefix urn ''urn:ccrn:''"
  assume "parseURNCCRNField urn = Inr key"
  then have len: "3 \<le> length (Split ?body CHR ''/'')"
    and key: "key = Split ?body CHR ''/'' ! 0 @ ''/'' @ Split ?body CHR ''/'' ! 1"
    by (auto simp: parseURNCCRNField_def Let_def split: if_splits)
  from len obtain A B C ps where sp: "Split ?body CHR ''/'' = A # B # C # ps"
    by (auto simp: numeral_3_eq_3 Suc_le_length_iff)
  from Split_Cons2D[OF sp] obtain r where r: "?body = A @ CHR ''/'' # r"
    "CHR ''/'' \<notin> set A" "Split r CHR ''/'' = B # C # ps" by blast
  from Split_Cons2D[OF r(3)] obtain r' where r': "r = B @ CHR ''/'' # r'" "CHR ''/'' \<notin> set B"
    by blast
  from sp key r r' show "\<exists>A B rest. CHR ''/'' \<notin> set A \<and> CHR ''/'' \<notin> set B \<and>
        ?body = A @ ''/'' @ B @ ''/'' @ rest \<and> key = A @ ''/'' @ B"
    by auto
next
  assume "\<exists>A B rest. CHR ''/'' \<notin> set A \<and> CHR ''/'' \<notin> set B \<and>
        TrimPrefix urn ''urn:ccrn:'' = A @ ''/'' @ B @ ''/'' @ rest \<and> key = A @ ''/'' @ B"
  then obtain A B rest where h: "CHR ''/'' \<notin> set A" "CHR ''/'' \<notin> set B"
     "TrimPrefix urn ''urn:ccrn:'' = A @ ''/'' @ B @ ''/'' @ rest" "key = A @ ''/'' @ B" by blast
  have "Split (A @ ''/'' @ B @ ''/'' @ rest) CHR ''/'' = A # B # Split rest CHR ''/''"
    using h(1,2) Split_skip[of "CHR ''/''"] by simp
  moreover obtain x xs where "Split rest CHR ''/'' = x # xs"
    using Split_nonempty[of rest] by (cases "Split rest CHR ''/''") auto
  ultimately show "parseURNCCRNField urn = Inr key"
    using h(3,4) by (simp add: parseURNCCRNField_def Let_def)
qed

theorem type_key_invariant_witness:
  "parseURNCCRNField ''urn:ccrn:t.g/v1/eu-de-1/my-pod'' = Inr ''t.g/v1''"
proof -
  have "CHR ''/'' \<notin> set ''t.g'' \<and> CHR ''/'' \<notin> set ''v1'' \<and>
        TrimPrefix ''urn:ccrn:t.g/v1/eu-de-1/my-pod'' ''urn:ccrn:'' = ''t.g'' @ ''/'' @ ''v1'' @ ''/'' @ ''eu-de-1/my-pod'' \<and>
        ''t.g/v1'' = ''t.g'' @ ''/'' @ ''v1''"
    by (simp add: TrimPrefix_def HasPrefix_def)
  then show ?thesis
    using type_key_invariant[of "''urn:ccrn:t.g/v1/eu-de-1/my-pod''" "''t.g/v1''"] by blast
qed

text \<open>Claim C2 (URN parse correctness).  The claim asks that a URN whose segments match the
  template parses into one field per placeholder, the last placeholder taking the remainder.
  The code does not do so: \<open>urn:ccrn:t.g/v1/eu-de-1/a/b\<close> matches
  \<open>urn:ccrn:<ccrn>/<cluster>/<name>\<close>, and \<open>parseURNFields\<close> answers with the segment-count
  error; it does so for every input it does not panic on, as it splits the body into
  \<open>len(templateParts)\<close> pieces and then joins the first two.\<close>

theorem parseURN_rejects_matching_input:
  "parseURNFields ''urn:ccrn:t.g/v1/eu-de-1/a/b'' ''urn:ccrn:<ccrn>/<cluster>/<name>'' =
     Inl (SegmentCountMismatch ''urn:ccrn:<ccrn>/<cluster>/<name>'' ''urn:ccrn:t.g/v1/eu-de-1/a/b'')
   \<and> (\<forall>urn urnTemplate m. parseURNFields urn urnTemplate \<noteq> Inr m)"
proof -
  have "case parseURNFields ''urn:ccrn:t.g/v1/eu-de-1/a/b'' ''urn:ccrn:<ccrn>/<cluster>/<name>'' of
          Inl e \<Rightarrow> e = SegmentCountMismatch ''urn:ccrn:<ccrn>/<cluster>/<name>'' ''urn:ccrn:t.g/v1/eu-de-1/a/b''
        | Inr m \<Rightarrow> False"
    by code_simp
  then show ?thesis
    using parseURNFields_not_Inr by (auto split: sum.splits)
qed

text \<open>Claim C4 (segment-count mismatch).  A URN with too few segments is to be answered with
  the segment-count error.  For a body without a slash the code never gets to that check:
  \<open>tmpParts\<close> has one element and \<open>tmpParts[1]\<close> is an index out of range.\<close>

theorem parseURN_single_segment_panics:
  "parseURNFields ''urn:ccrn:t.g'' ''urn:ccrn:<ccrn>/<cluster>/<name>'' = Inl IndexOutOfRange"
proof -
  have "case parseURNFields ''urn:ccrn:t.g'' ''urn:ccrn:<ccrn>/<cluster>/<name>'' of
          Inl e \<Rightarrow> e = IndexOutOfRange | Inr m \<Rightarrow> False"
    by code_simp
  then show ?thesis by (auto split: sum.splits)
qed

section \<open>Facts about trimming\<close>

lemma rune_single: "w \<in> set spaceRunes \<Longrightarrow> length w = 1 \<Longrightarrow> asciiSpace (hd w)"
  by (auto simp: spaceRunes_def asciiSpace_def)

lemma rune_multi: "w \<in> set spaceRunes \<Longrightarrow> 2 \<le> length w \<Longrightarrow> c \<in> set w \<Longrightarrow> 128 \<le> (of_char c :: nat)"
  by (auto simp: spaceRunes_def)

lemma rune_nonempty: "w \<in> set spaceRunes \<Longrightarrow> w \<noteq> []"
  by (auto simp: spaceRunes_def)

lemma asciiSpace_ascii: "asciiSpace c \<Longrightarrow> (of_char c :: nat) < 128"
  by (auto simp: asciiSpace_def)

lemma leadingSpace_ascii: "asciiSpace c \<Longrightarrow> leadingSpace (c # s) = 1"
  unfolding asciiSpace_def by (elim disjE; simp add: leadingSpace_def spaceRunes_def)

lemma trailingSpace_ascii: "asciiSpace c \<Longrightarrow> trailingSpace (s @ [c]) = 1"
  unfolding asciiSpace_def
  by (elim disjE; simp add: trailingSpace_def spaceRunes_def suffix_to_prefix)

lemma rune_prefix_append:
  assumes "w \<in> set spaceRunes" "a \<noteq> []" "(of_char c :: nat) < 128"
  shows "prefix w (a @ c # b) \<longleftrightarrow> prefix w a"
proof
  assume "prefix w (a @ c # b)"
  then have "prefix w a \<or> (\<exists>us. w = a @ us \<and> us \<noteq> [] \<and> prefix us (c # b))"
    unfolding prefix_append by (cases "w = a") auto
  then consider "prefix w a" | us where "w = a @ us" "us \<noteq> []" "prefix us (c # b)"
    by blast
  then show "prefix w a"
  proof cases
    case 1
    then show ?thesis .
  next
    case 2
    then have "c \<in> set w" by (cases us) auto
    moreover have "2 \<le> length w" using 2 assms(2) by (cases a; cases us) auto
    ultimately show ?thesis using rune_multi[OF assms(1)] assms(3) by fastforce
  qed
qed simp

lemma rune_suffix_append:
  assumes "w \<in> set spaceRunes" "b \<noteq> []" "(of_char c :: nat) < 128"
  shows "suffix w (a @ c # b) \<longleftrightarrow> suffix w b"
proof
  assume "suffix w (a @ c # b)"
  then have "suffix w ((a @ [c]) @ b)" by simp
  then have "suffix w b \<or> (\<exists>us. w = us @ b \<and> us \<noteq> [] \<and> suffix us (a @ [c]))"
    unfolding suffix_append by (cases "w = b") auto
  then consider "suffix w b" | us where "w = us @ b" "us \<noteq> []" "suffix us (a @ [c])"
    by blast
  then show "suffix w b"
  proof cases
    case 1
    then show ?thesis .
  next
    case 2
    then have "last us = c" by (auto simp: suffix_def) (metis last_appendR last_snoc)
    with 2 have "c \<in> set w" using last_in_set[of us] by auto
    moreover have "2 \<le> length w" using 2 assms(2) by (cases b; cases us) auto
    ultimately show ?thesis using rune_multi[OF assms(1)] assms(3) by fastforce
  qed
next
  assume "suffix w b"
  then show "suffix w (a @ c # b)" by (metis suffix_Cons suffix_append)
qed

lemma leadingSpace_append:
  "a \<noteq> [] \<Longrightarrow> (of_char c :: nat) < 128 \<Longrightarrow> leadingSpace (a @ c # b) = leadingSpace a"
  unfolding leadingSpace_def
  by (rule arg_cong[where f = "case_option 0 length"], rule find_cong)
     (simp_all add: rune_prefix_append)

lemma trailingSpace_append:
  "b \<noteq> [] \<Longrightarrow> (of_char c :: nat) < 128 \<Longrightarrow> trailingSpace (a @ c # b) = trailingSpace b"
  unfolding trailingSpace_def
  by (rule arg_cong[where f = "case_option 0 length"], rule find_cong)
     (simp_all add: rune_suffix_append)

lemma leadingSpace_nonspace:
  assumes "\<not> asciiSpace c" "(of_char c :: nat) < 128"
  shows "leadingSpace (c # b) = 0"
proof -
  have "\<not> prefix w (c # b)" if w: "w \<in> set spaceRunes" for w
  proof
    assume p: "prefix w (c # b)"
    with rune_nonempty[OF w] obtain w' where w': "w = c # w'" by (cases w) auto
    show False
    proof (cases w')
      case Nil
      with w' rune_single[OF w] assms(1) show False by simp
    next
      case (Cons x xs)
      with w' rune_multi[OF w, of c] assms(2) show False by simp
    qed
  qed
  then have "find (\<lambda>w. prefix w (c # b)) spaceRunes = None"
    by (simp add: find_None_iff)
  then show ?thesis by (simp add: leadingSpace_def)
qed

lemma trailingSpace_nonspace:
  assumes "\<not> asciiSpace c" "(of_char c :: nat) < 128"
  shows "trailingSpace (a @ [c]) = 0"
proof -
  have "\<not> suffix w (a @ [c])" if w: "w \<in> set spaceRunes" for w
  proof
    assume p: "suffix w (a @ [c])"
    with rune_nonempty[OF w] have "last w = c" by (auto simp: suffix_def) (metis last_appendR last_snoc)
    with rune_nonempty[OF w] obtain w' where w': "w = w' @ [c]" by (metis append_butlast_last_id)
    show False
    proof (cases w')
      case Nil
      with w' rune_single[OF w] assms(1) show False by simp
    next
      case (Cons x xs)
      with w' rune_multi[OF w, of c] assms(2) show False by simp
    qed
  qed
  then have "find (\<lambda>w. suffix w (a @ [c])) spaceRunes = None"
    by (simp add: find_None_iff)
  then show ?thesis by (simp add: trailingSpace_def)
qed

lemma leadingSpace_Nil: "leadingSpace [] = 0"
  by (simp add: leadingSpace_def spaceRunes_def)

lemma trailingSpace_Nil: "trailingSpace [] = 0"
  by (simp add: trailingSpace_def spaceRunes_def)

lemma leadingSpace_le: "leadingSpace s \<le> length s"
  by (auto simp: leadingSpace_def find_Some_iff prefix_length_le split: option.splits)

lemma trailingSpace_le: "trailingSpace s \<le> length s"
  by (auto simp: trailingSpace_def find_Some_iff suffix_length_le split: option.splits)

lemma TrimLeftSpace_Nil: "TrimLeftSpace [] = []"
  by (simp add: TrimLeftSpace.simps leadingSpace_Nil)

lemma TrimRightSpace_Nil: "TrimRightSpace [] = []"
  by (simp add: TrimRightSpace.simps trailingSpace_Nil)

lemma TrimLeftSpace_id: "leadingSpace s = 0 \<Longrightarrow> TrimLeftSpace s = s"
  by (simp add: TrimLeftSpace.simps)

lemma TrimRightSpace_id: "trailingSpace s = 0 \<Longrightarrow> TrimRightSpace s = s"
  by (simp add: TrimRightSpace.simps)

lemma TrimLeftSpace_spaces: "\<forall>c\<in>set ws. asciiSpace c \<Longrightarrow> TrimLeftSpace (ws @ s) = TrimLeftSpace s"
  by (induction ws) (simp_all add: TrimLeftSpace.simps[of "_ # _"] leadingSpace_ascii)

lemma TrimRightSpace_spaces: "\<forall>c\<in>set ws. asciiSpace c \<Longrightarrow> TrimRightSpace (s @ ws) = TrimRightSpace s"
proof (induction ws rule: rev_induct)
  case Nil
  then show ?case by simp
next
  case (snoc c ws)
  have t: "trailingSpace (s @ ws @ [c]) = 1"
    using trailingSpace_ascii[of c "s @ ws"] snoc.prems by simp
  have "TrimRightSpace (s @ ws @ [c]) = TrimRightSpace (s @ ws)"
    by (subst TrimRightSpace.simps) (simp add: t)
  with snoc show ?case by simp
qed

lemma TrimLeftSpace_append_char:
  assumes "\<not> asciiSpace c" "(of_char c :: nat) < 128"
  shows "TrimLeftSpace (a @ c # b) = TrimLeftSpace a @ c # b"
proof (induction a rule: TrimLeftSpace.induct)
  case (1 s)
  show ?case
  proof (cases "s = []")
    case True
    then show ?thesis
      using assms by (simp add: TrimLeftSpace_Nil TrimLeftSpace_id leadingSpace_nonspace)
  next
    case False
    then have eq: "leadingSpace (s @ c # b) = leadingSpace s"
      using assms(2) by (rule leadingSpace_append)
    show ?thesis
    proof (cases "leadingSpace s = 0")
      case True
      with eq show ?thesis by (simp add: TrimLeftSpace_id)
    next
      case nz: False
      have "TrimLeftSpace (s @ c # b) = TrimLeftSpace (drop (leadingSpace s) s @ c # b)"
        using nz eq leadingSpace_le[of s] by (subst TrimLeftSpace.simps) simp
      also have "\<dots> = TrimLeftSpace (drop (leadingSpace s) s) @ c # b"
        using 1 nz by simp
      also have "TrimLeftSpace (drop (leadingSpace s) s) = TrimLeftSpace s"
        using nz by (subst (2) TrimLeftSpace.simps) simp
      finally show ?thesis .
    qed
  qed
qed

lemma TrimRightSpace_append_char:
  assumes "\<not> asciiSpace c" "(of_char c :: nat) < 128"
  shows "TrimRightSpace (a @ c # b) = a @ c # TrimRightSpace b"
proof (induction b rule: TrimRightSpace.induct)
  case (1 s)
  show ?case
  proof (cases "s = []")
    case True
    then show ?thesis
      using assms by (simp add: TrimRightSpace_Nil TrimRightSpace_id trailingSpace_nonspace)
  next
    case False
    then have eq: "trailingSpace (a @ c # s) = trailingSpace s"
      using assms(2) by (rule trailingSpace_append)
    show ?thesis
    proof (cases "trailingSpace s = 0")
      case True
      with eq show ?thesis by (simp add: TrimRightSpace_id)
    next
      case nz: False
      have "TrimRightSpace (a @ c # s) = TrimRightSpace (a @ c # take (length s - trailingSpace s) s)"
        using nz eq trailingSpace_le[of s] by (subst TrimRightSpace.simps) (simp add: Suc_diff_le)
      also have "\<dots> = a @ c # TrimRightSpace (take (length s - trailingSpace s) s)"
        using 1 nz by simp
      also have "TrimRightSpace (take (length s - trailingSpace s) s) = TrimRightSpace s"
        using nz by (subst (2) TrimRightSpace.simps) simp
      finally show ?thesis .
    qed
  qed
qed

lemma set_TrimLeftSpace: "set (TrimLeftSpace s) \<subseteq> set s"
proof (induction s rule: TrimLeftSpace.induct)
  case (1 s)
  show ?case
  proof (cases "leadingSpace s = 0")
    case True
    then show ?thesis by (simp add: TrimLeftSpace_id)
  next
    case False
    then have "TrimLeftSpace s = TrimLeftSpace (drop (leadingSpace s) s)"
      by (subst TrimLeftSpace.simps) simp
    with 1[OF False] set_drop_subset[of "leadingSpace s" s] show ?thesis by auto
  qed
qed

lemma TrimLeftSpace_core:
  assumes "\<forall>c\<in>set ws1. asciiSpace c" "\<forall>c\<in>set ws2. asciiSpace c" "trimmed k"
  shows "TrimLeftSpace (ws1 @ k @ ws2) = (if k = [] then [] else k @ ws2)"
proof (cases "k = []")
  case True
  have "\<forall>c\<in>set (ws1 @ ws2). asciiSpace c" using assms(1,2) by auto
  from TrimLeftSpace_spaces[OF this, of "[]"] have "TrimLeftSpace (ws1 @ ws2) = []"
    by (simp add: TrimLeftSpace_Nil)
  with True show ?thesis by simp
next
  case False
  have l: "leadingSpace (k @ ws2) = 0"
  proof (cases ws2)
    case Nil
    with assms(3) show ?thesis by (simp add: trimmed_def)
  next
    case (Cons c cs)
    with assms(2) have "(of_char c :: nat) < 128" by (simp add: asciiSpace_ascii)
    with False Cons assms(3) show ?thesis by (simp add: leadingSpace_append trimmed_def)
  qed
  with False show ?thesis
    using assms(1) by (simp add: TrimLeftSpace_spaces TrimLeftSpace_id)
qed

lemma TrimRightSpace_core:
  assumes "\<forall>c\<in>set ws1. asciiSpace c" "\<forall>c\<in>set ws2. asciiSpace c" "trimmed k"
  shows "TrimRightSpace (ws1 @ k @ ws2) = (if k = [] then [] else ws1 @ k)"
proof (cases "k = []")
  case True
  have "\<forall>c\<in>set (ws1 @ ws2). asciiSpace c" using assms(1,2) by auto
  from TrimRightSpace_spaces[OF this, of "[]"] have "TrimRightSpace (ws1 @ ws2) = []"
    by (simp add: TrimRightSpace_Nil)
  with True show ?thesis by simp
next
  case False
  have t: "trailingSpace (ws1 @ k) = 0"
  proof (cases ws1 rule: rev_cases)
    case Nil
    with assms(3) show ?thesis by (simp add: trimmed_def)
  next
    case (snoc cs c)
    with assms(1) have "(of_char c :: nat) < 128" by (simp add: asciiSpace_ascii)
    with False snoc assms(3) show ?thesis by (simp add: trailingSpace_append trimmed_def)
  qed
  have "TrimRightSpace ((ws1 @ k) @ ws2) = TrimRightSpace (ws1 @ k)"
    using assms(2) by (rule TrimRightSpace_spaces)
  with False t show ?thesis by (simp add: TrimRightSpace_id)
qed

lemma TrimSpace_core:
  assumes "\<forall>c\<in>set ws1. asciiSpace c" "\<forall>c\<in>set ws2. asciiSpace c" "trimmed k"
  shows "TrimSpace (ws1 @ k @ ws2) = k"
  using TrimLeftSpace_core[OF assms] TrimRightSpace_core[of "[]" ws2 k] assms
  by (simp add: TrimSpace_def TrimRightSpace_Nil)

lemma TrimSpace_trimmed: "trimmed s \<Longrightarrow> TrimSpace s = s"
  using TrimSpace_core[of "[]" "[]" s] by simp

lemma equals_not_space: "\<not> asciiSpace CHR ''=''" "(of_char CHR ''='' :: nat) < 128"
  by (simp_all add: asciiSpace_def)

lemma stripQuotes_quoted: "stripQuotes (CHR 0x22 # u @ [CHR 0x22]) = u"
  by (simp add: stripQuotes_def nth_append)

lemma stripQuotes_unquoted:
  assumes "\<nexists>u. v = CHR 0x22 # u @ [CHR 0x22]"
  shows "stripQuotes v = v"
proof (rule ccontr)
  assume "stripQuotes v \<noteq> v"
  then have a: "2 \<le> length v" "v ! 0 = CHR 0x22" "v ! (length v - 1) = CHR 0x22"
    by (auto simp: stripQuotes_def split: if_splits)
  then obtain x xs where v: "v = x # xs" "xs \<noteq> []" by (cases v; cases "tl v") auto
  with a have "x = CHR 0x22" "last xs = CHR 0x22" by (auto simp: last_conv_nth)
  with v have "v = CHR 0x22 # butlast xs @ [CHR 0x22]" by (metis append_butlast_last_id)
  with assms show False by blast
qed

text \<open>How \<open>parseCCRNFields\<close> reads one entry \<open>key = value\<close> with white space around both.\<close>

lemma entry_parts:
  assumes ws: "\<forall>c\<in>set (ws1 @ ws2 @ ws3 @ ws4). asciiSpace c"
    and k: "trimmed k" "CHR ''='' \<notin> set k" and v: "trimmed v"
  defines "e \<equiv> ws1 @ k @ ws2 @ ''='' @ ws3 @ v @ ws4"
  shows "TrimSpace e \<noteq> []"
    and "length (SplitN (TrimSpace e) CHR ''='' 2) = 2"
    and "TrimSpace (SplitN (TrimSpace e) CHR ''='' 2 ! 0) = k"
    and "TrimSpace (SplitN (TrimSpace e) CHR ''='' 2 ! 1) = v"
proof -
  let ?a = "ws1 @ k @ ws2" and ?b = "ws3 @ v @ ws4"
  have e: "e = ?a @ CHR ''='' # ?b" by (simp add: e_def)
  have ts: "TrimSpace e = TrimLeftSpace ?a @ CHR ''='' # TrimRightSpace ?b"
    unfolding e TrimSpace_def
    by (simp only: TrimLeftSpace_append_char[OF equals_not_space]
        TrimRightSpace_append_char[OF equals_not_space])
  have "CHR ''='' \<notin> set ?a" using ws k(2) equals_not_space(1) by auto
  then have noeq: "CHR ''='' \<notin> set (TrimLeftSpace ?a)" using set_TrimLeftSpace[of ?a] by blast
  have sp: "SplitN (TrimSpace e) CHR ''='' 2 = [TrimLeftSpace ?a, TrimRightSpace ?b]"
    unfolding ts using noeq by (rule SplitN_2_skip)
  show "TrimSpace e \<noteq> []" by (simp add: ts)
  show "length (SplitN (TrimSpace e) CHR ''='' 2) = 2" by (simp add: sp)
  have "TrimSpace (TrimLeftSpace ?a) = k"
    using ws k(1) TrimSpace_core[of "[]" ws2 k]
    by (simp add: TrimLeftSpace_core TrimSpace_def TrimLeftSpace_Nil TrimRightSpace_Nil)
  then show "TrimSpace (SplitN (TrimSpace e) CHR ''='' 2 ! 0) = k" by (simp add: sp)
  have "TrimSpace (TrimRightSpace ?b) = v"
    using ws v TrimSpace_core[of ws3 "[]" v]
    by (simp add: TrimRightSpace_core TrimSpace_def TrimLeftSpace_Nil TrimRightSpace_Nil)
  then show "TrimSpace (SplitN (TrimSpace e) CHR ''='' 2 ! 1) = v" by (simp add: sp)
qed

section \<open>The field-list parser\<close>

lemma parseEntries_append:
  "parseEntries (es1 @ es2) f =
     (case parseEntries es1 f of Inl err \<Rightarrow> Inl err | Inr g \<Rightarrow> parseEntries es2 g)"
  by (induction es1 arbitrary: f) (auto simp: Let_def)

lemma parseEntries_other_keys:
  "parseEntries es f = Inr g \<Longrightarrow> \<forall>e\<in>set es. TrimSpace e \<noteq> [] \<longrightarrow> entryKey e \<noteq> k \<Longrightarrow> g k = f k"
proof (induction es arbitrary: f)
  case Nil
  then show ?case by simp
next
  case (Cons e es)
  show ?case
  proof (cases "TrimSpace e = []")
    case True
    with Cons show ?thesis by simp
  next
    case False
    with Cons.prems(1) have len: "length (SplitN (TrimSpace e) CHR ''='' 2) = 2"
      by (auto simp: Let_def split: if_splits)
    with False Cons.prems(1)
    have "parseEntries es (f(entryKey e \<mapsto> stripQuotes (TrimSpace (SplitN (TrimSpace e) CHR ''='' 2 ! 1)))) = Inr g"
      by (simp add: Let_def entryKey_def)
    from Cons.IH[OF this] Cons.prems(2) False show ?thesis by auto
  qed
qed

lemma parseEntries_entry:
  assumes "\<forall>c\<in>set (ws1 @ ws2 @ ws3 @ ws4). asciiSpace c"
    and "trimmed k" "CHR ''='' \<notin> set k" "trimmed v"
  shows "parseEntries ((ws1 @ k @ ws2 @ ''='' @ ws3 @ v @ ws4) # es) f =
           parseEntries es (f(k \<mapsto> stripQuotes v))"
  using entry_parts[OF assms] by (simp add: Let_def)

text \<open>Claim C8 (field-list value normalization).  Take any entry of a field list that
  \<open>parseCCRNFields\<close> accepts, written \<open>key = value\<close> with any ASCII white space before and
  after the key and the value, the key and the value themselves without white space at
  their ends, and the key not bound again by a later entry.  Then the parsed mapping binds
  the key to the value, with exactly one pair of enclosing double quotes removed when the
  value is wholly wrapped in double quotes, and to the value unchanged otherwise.\<close>

theorem field_value_normalization:
  assumes parse: "parseCCRNFields input = Inr m"
    and entries: "Split (TrimSpace input) CHR '','' =
                    es1 @ (ws1 @ k @ ws2 @ ''='' @ ws3 @ v @ ws4) # es2"
    and ws: "\<forall>c\<in>set (ws1 @ ws2 @ ws3 @ ws4). asciiSpace c"
    and k: "trimmed k" "CHR ''='' \<notin> set k"
    and v: "trimmed v"
    and last: "\<forall>e\<in>set es2. TrimSpace e \<noteq> [] \<longrightarrow> entryKey e \<noteq> k"
  shows "(\<forall>u. v = CHR 0x22 # u @ [CHR 0x22] \<longrightarrow> m k = Some u) \<and>
         ((\<nexists>u. v = CHR 0x22 # u @ [CHR 0x22]) \<longrightarrow> m k = Some v)"
proof -
  from parse have "parseEntries (Split (TrimSpace input) CHR '','') Map.empty = Inr m"
    by (auto simp: parseCCRNFields_def Let_def split: if_splits sum.splits)
  then obtain g where g: "parseEntries es1 Map.empty = Inr g"
    and rest: "parseEntries ((ws1 @ k @ ws2 @ ''='' @ ws3 @ v @ ws4) # es2) g = Inr m"
    unfolding entries parseEntries_append by (auto split: sum.splits)
  from rest have "parseEntries es2 (g(k \<mapsto> stripQuotes v)) = Inr m"
    by (simp only: parseEntries_entry[OF ws k v])
  from parseEntries_other_keys[OF this last] have "m k = Some (stripQuotes v)" by simp
  then show ?thesis by (auto simp: stripQuotes_quoted stripQuotes_unquoted)
qed

theorem field_value_normalization_witness:
  \<open>\<exists>m. parseCCRNFields ''ccrn=t.g/v1, name="my-pod"'' = Inr m \<and> m ''name'' = Some ''my-pod''\<close>
proof -
  let ?input = \<open>''ccrn=t.g/v1, name="my-pod"''\<close>
  have \<open>case parseCCRNFields ?input of Inl e \<Rightarrow> False | Inr m \<Rightarrow> True\<close>
    by code_simp
  then obtain m where parse: "parseCCRNFields ?input = Inr m"
    by (auto split: sum.splits)
  have entries: \<open>Split (TrimSpace ?input) CHR '','' =
      [''ccrn=t.g/v1''] @ ('' '' @ ''name'' @ [] @ ''='' @ [] @ ''"my-pod"'' @ []) # []\<close>
    by code_simp
  have ws: "\<forall>c\<in>set ('' '' @ [] @ [] @ []). asciiSpace c"
    by (simp add: asciiSpace_def)
  have k: "trimmed ''name''" "CHR ''='' \<notin> set ''name''"
    by code_simp+
  have v: \<open>trimmed ''"my-pod"''\<close>
    by code_simp
  have last: "\<forall>e\<in>set []. TrimSpace e \<noteq> [] \<longrightarrow> entryKey e \<noteq> ''name''"
    by simp
  from field_value_normalization[OF parse entries ws k v last]
  have "m ''name'' = Some ''my-pod''" by simp
  with parse show ?thesis by blast
qed

text \<open>Claim C3 (the \<open>ccrn\<close> field of a parsed result).  The claim asks for a non-empty value
  under \<open>ccrn\<close>.  The field-list parser only checks that the key is present: the input
  \<open>ccrn=\<close> parses, with the empty string under \<open>ccrn\<close>.\<close>

theorem ccrn_may_be_empty:
  "parseCCRNFields ''ccrn='' = Inr [''ccrn'' \<mapsto> []]"
proof -
  have "TrimSpace ''ccrn='' = ''ccrn=''" "SplitN ''ccrn='' CHR ''='' 2 = [''ccrn'', []]"
    "TrimSpace ''ccrn'' = ''ccrn''" "TrimSpace [] = []" "Split ''ccrn='' CHR '','' = [''ccrn='']"
    by code_simp+
  then show ?thesis
    by (simp add: parseCCRNFields_def HasPrefix_def Let_def stripQuotes_def)
qed

text \<open>Claim C3, as the code has it: whenever \<open>parseCCRNFields\<close> returns a mapping the key
  \<open>ccrn\<close> is bound in it (an input without a \<open>ccrn\<close> entry is a parse failure), and the
  type key returned by the bootstrap URN parse \<open>parseURNCCRNField\<close> is never empty.\<close>

theorem ccrn_key_present:
  "(parseCCRNFields input = Inr m \<longrightarrow> m ''ccrn'' \<noteq> None) \<and>
   (parseURNCCRNField urn = Inr key \<longrightarrow> key \<noteq> [])"
  by (auto simp: parseCCRNFields_def parseURNCCRNField_def Let_def split: if_splits sum.splits)

theorem ccrn_key_present_witness:
  "parseCCRNFields ''ccrn='' = Inr [''ccrn'' \<mapsto> []] \<and> [''ccrn'' \<mapsto> []] ''ccrn'' \<noteq> None \<and>
   parseURNCCRNField ''urn:ccrn:t.g/v1/eu-de-1'' = Inr ''t.g/v1'' \<and> ''t.g/v1'' \<noteq> []"
proof -
  have p: "parseCCRNFields ''ccrn='' = Inr [''ccrn'' \<mapsto> []]"
  proof -
    have "TrimSpace ''ccrn='' = ''ccrn=''" "SplitN ''ccrn='' CHR ''='' 2 = [''ccrn'', []]"
      "TrimSpace ''ccrn'' = ''ccrn''" "TrimSpace [] = []" "Split ''ccrn='' CHR '','' = [''ccrn='']"
      by code_simp+
    then show ?thesis
      by (simp add: parseCCRNFields_def HasPrefix_def Let_def stripQuotes_def)
  qed
  have u: "parseURNCCRNField ''urn:ccrn:t.g/v1/eu-de-1'' = Inr ''t.g/v1''"
    by code_simp
  from ccrn_key_present[of "''ccrn=''" "[''ccrn'' \<mapsto> []]" "''urn:ccrn:t.g/v1/eu-de-1''" "''t.g/v1''"] p u
  show ?thesis by simp
qed

text \<open>Claim C1 (round trip).  The field list \<open>ccrn=t.g/v1, cluster=eu-de-1, name=my-pod\<close>
  parses; rendering its fields through \<open>urn:ccrn:<ccrn>/<cluster>/<name>\<close> gives
  \<open>urn:ccrn:t.g/v1/eu-de-1/my-pod\<close>; parsing that URN with the same template does not give
  the fields back but the segment-count error.\<close>

theorem round_trip_fails:
  "parseCCRNFields ''ccrn=t.g/v1, cluster=eu-de-1, name=my-pod'' =
     Inr [''ccrn'' \<mapsto> ''t.g/v1'', ''cluster'' \<mapsto> ''eu-de-1'', ''name'' \<mapsto> ''my-pod''] \<and>
   rangeOrder [(''name'', ''my-pod''), (''cluster'', ''eu-de-1''), (''ccrn'', ''t.g/v1'')]
     [''ccrn'' \<mapsto> ''t.g/v1'', ''cluster'' \<mapsto> ''eu-de-1'', ''name'' \<mapsto> ''my-pod''] \<and>
   URN \<lparr>Format = ''CCRN'',
        Fields = [''ccrn'' \<mapsto> ''t.g/v1'', ''cluster'' \<mapsto> ''eu-de-1'', ''name'' \<mapsto> ''my-pod''],
        Raw = ''ccrn=t.g/v1, cluster=eu-de-1, name=my-pod'', UrnTemplate = []\<rparr>
       [(''name'', ''my-pod''), (''cluster'', ''eu-de-1''), (''ccrn'', ''t.g/v1'')]
       ''urn:ccrn:<ccrn>/<cluster>/<name>'' = ''urn:ccrn:t.g/v1/eu-de-1/my-pod'' \<and>
   parseURNFields ''urn:ccrn:t.g/v1/eu-de-1/my-pod'' ''urn:ccrn:<ccrn>/<cluster>/<name>'' =
     Inl (SegmentCountMismatch ''urn:ccrn:<ccrn>/<cluster>/<name>'' ''urn:ccrn:t.g/v1/eu-de-1/my-pod'')"
proof -
  have "TrimSpace ''ccrn=t.g/v1, cluster=eu-de-1, name=my-pod'' = ''ccrn=t.g/v1, cluster=eu-de-1, name=my-pod''"
    "Split ''ccrn=t.g/v1, cluster=eu-de-1, name=my-pod'' CHR '','' = [''ccrn=t.g/v1'', '' cluster=eu-de-1'', '' name=my-pod'']"
    by code_simp+
  moreover have "parseEntries (([] @ ''ccrn'' @ [] @ ''='' @ [] @ ''t.g/v1'' @ []) #
        ('' '' @ ''cluster'' @ [] @ ''='' @ [] @ ''eu-de-1'' @ []) #
        ('' '' @ ''name'' @ [] @ ''='' @ [] @ ''my-pod'' @ []) # []) Map.empty =
     Inr [''ccrn'' \<mapsto> stripQuotes ''t.g/v1'', ''cluster'' \<mapsto> stripQuotes ''eu-de-1'', ''name'' \<mapsto> stripQuotes ''my-pod'']"
  proof -
    have t: "trimmed ''ccrn''" "trimmed ''t.g/v1''" "trimmed ''cluster''" "trimmed ''eu-de-1''"
      "trimmed ''name''" "trimmed ''my-pod''"
      by code_simp+
    have s: "\<forall>c\<in>set ('' '' @ [] @ [] @ []). asciiSpace c" "\<forall>c\<in>set ([] @ [] @ [] @ []). asciiSpace c"
      by (simp_all add: asciiSpace_def)
    show ?thesis
      by (subst parseEntries_entry[OF s(2) t(1) _ t(2)], simp,
          subst parseEntries_entry[OF s(1) t(3) _ t(4)], simp,
          subst parseEntries_entry[OF s(1) t(5) _ t(6)], simp, simp)
  qed
  ultimately have 1: "parseCCRNFields ''ccrn=t.g/v1, cluster=eu-de-1, name=my-pod'' =
     Inr [''ccrn'' \<mapsto> ''t.g/v1'', ''cluster'' \<mapsto> ''eu-de-1'', ''name'' \<mapsto> ''my-pod'']"
    by (simp add: parseCCRNFields_def HasPrefix_def Let_def stripQuotes_def)
  have 2: "rangeOrder [(''name'', ''my-pod''), (''cluster'', ''eu-de-1''), (''ccrn'', ''t.g/v1'')]
     [''ccrn'' \<mapsto> ''t.g/v1'', ''cluster'' \<mapsto> ''eu-de-1'', ''name'' \<mapsto> ''my-pod'']"
    by (simp add: rangeOrder_def)
  have 3: "URN \<lparr>Format = ''CCRN'',
        Fields = [''ccrn'' \<mapsto> ''t.g/v1'', ''cluster'' \<mapsto> ''eu-de-1'', ''name'' \<mapsto> ''my-pod''],
        Raw = ''ccrn=t.g/v1, cluster=eu-de-1, name=my-pod'', UrnTemplate = []\<rparr>
       [(''name'', ''my-pod''), (''cluster'', ''eu-de-1''), (''ccrn'', ''t.g/v1'')]
       ''urn:ccrn:<ccrn>/<cluster>/<name>'' = ''urn:ccrn:t.g/v1/eu-de-1/my-pod''"
    by (simp add: URN_def substitute_def)
  have "case parseURNFields ''urn:ccrn:t.g/v1/eu-de-1/my-pod'' ''urn:ccrn:<ccrn>/<cluster>/<name>'' of
          Inl e \<Rightarrow> e = SegmentCountMismatch ''urn:ccrn:<ccrn>/<cluster>/<name>'' ''urn:ccrn:t.g/v1/eu-de-1/my-pod''
        | Inr m \<Rightarrow> False"
    by code_simp
  then have 4: "parseURNFields ''urn:ccrn:t.g/v1/eu-de-1/my-pod'' ''urn:ccrn:<ccrn>/<cluster>/<name>'' =
     Inl (SegmentCountMismatch ''urn:ccrn:<ccrn>/<cluster>/<name>'' ''urn:ccrn:t.g/v1/eu-de-1/my-pod'')"
    by (auto split: sum.splits)
  from 1 2 3 4 show ?thesis by blast
qed

section \<open>Rendering a URN\<close>

lemma templateString_append: "templateString (xs @ ys) = templateString xs @ templateString ys"
  by (induction xs rule: templateString.induct) auto

lemma templateString_Lits: "templateString (map Lit v) = v"
  by (induction v) auto

lemma wellFormed_append: "wellFormed (xs @ ys) \<longleftrightarrow> wellFormed xs \<and> wellFormed ys"
  by (induction xs rule: wellFormed.induct) auto

lemma wellFormed_Lits: "plain v \<Longrightarrow> wellFormed (map Lit v)"
  by (induction v) (auto simp: plain_def)

lemma Replace1_skip:
  "CHR ''<'' \<notin> set xs \<Longrightarrow>
     Replace1 (xs @ ys) (CHR ''<'' # old) new = xs @ Replace1 ys (CHR ''<'' # old) new"
  by (induction xs) auto

lemma Replace1_Nil: "Replace1 [] (CHR ''<'' # old) new = []"
  by simp

lemma plain_prefix_eq:
  "CHR ''>'' \<notin> set a \<Longrightarrow> CHR ''>'' \<notin> set b \<Longrightarrow> prefix (a @ CHR ''>'' # x) (b @ CHR ''>'' # y) \<Longrightarrow> a = b"
proof (induction a arbitrary: b)
  case Nil
  then show ?case by (cases b) auto
next
  case (Cons c a)
  then show ?case by (cases b) auto
qed

lemma Replace1_template:
  assumes "wellFormed ts" "plain key"
  shows "Replace1 (templateString ts) (''<'' @ key @ ''>'') v = templateString (replaceFirst key v ts)"
  using assms(1)
proof (induction ts rule: templateString.induct)
  case 1
  then show ?case by simp
next
  case (2 c ts)
  then show ?case by auto
next
  case (3 name ts)
  show ?case
  proof (cases "name = key")
    case True
    then show ?thesis by (simp add: templateString_append templateString_Lits)
  next
    case False
    have np: "\<not> prefix (key @ CHR ''>'' # []) (name @ CHR ''>'' # templateString ts)"
      using plain_prefix_eq[of key name "[]" "templateString ts"] False 3(2) assms(2)
      by (auto simp: plain_def)
    have "CHR ''<'' \<notin> set (name @ ''>'')" using 3(2) by (simp add: plain_def)
    from Replace1_skip[OF this, of "templateString ts" "key @ ''>''" v]
    have "Replace1 (name @ ''>'' @ templateString ts) (''<'' @ key @ ''>'') v =
            name @ ''>'' @ Replace1 (templateString ts) (''<'' @ key @ ''>'') v"
      by simp
    with np False 3 show ?thesis by simp
  qed
qed

lemma wellFormed_replaceFirst: "wellFormed ts \<Longrightarrow> plain v \<Longrightarrow> wellFormed (replaceFirst key v ts)"
  by (induction ts rule: wellFormed.induct) (auto simp: wellFormed_append wellFormed_Lits)

lemma substitute_template:
  assumes "wellFormed ts" "list_all (\<lambda>(k, v). plain k \<and> plain v) kvs"
  shows "substitute kvs (templateString ts) =
           templateString (fold (\<lambda>(k, v). replaceFirst k v) kvs ts)"
  using assms
proof (induction kvs arbitrary: ts)
  case Nil
  then show ?case by (simp add: substitute_def)
next
  case (Cons kv kvs)
  obtain k v where kv: "kv = (k, v)" by (cases kv)
  with Cons.prems have p: "plain k" "plain v" "list_all (\<lambda>(k, v). plain k \<and> plain v) kvs" by auto
  have "substitute (kv # kvs) (templateString ts) =
          substitute kvs (Replace1 (templateString ts) (''<'' @ k @ ''>'') v)"
    by (simp add: substitute_def kv)
  also have "\<dots> = substitute kvs (templateString (replaceFirst k v ts))"
    using Replace1_template[OF Cons.prems(1) p(1)] by simp
  also have "\<dots> = templateString (fold (\<lambda>(k, v). replaceFirst k v) kvs (replaceFirst k v ts))"
    using Cons.IH[OF wellFormed_replaceFirst[OF Cons.prems(1) p(2)] p(3)] .
  finally show ?case by (simp add: kv)
qed

lemma renderURN_Lits: "renderURN m used (map Lit v @ ts) = v @ renderURN m used ts"
  by (induction v) auto

lemma renderURN_empty: "renderURN Map.empty used ts = templateString ts"
  by (induction ts rule: templateString.induct) auto

lemma renderURN_used_key:
  "m k = None \<Longrightarrow> k \<in> set used' \<Longrightarrow> \<forall>n. n \<noteq> k \<longrightarrow> (n \<in> set used' \<longleftrightarrow> n \<in> set used) \<Longrightarrow>
     renderURN (m(k \<mapsto> v)) used' ts = renderURN m used ts"
proof (induction ts arbitrary: used used' rule: templateString.induct)
  case 1
  then show ?case by simp
next
  case (2 c ts)
  then show ?case by simp
next
  case (3 name ts)
  show ?case
  proof (cases "name = k")
    case True
    have "renderURN (m(k \<mapsto> v)) used' ts = renderURN m used ts"
      using 3(2,3,4) by (rule 3(1))
    moreover have "(m(k \<mapsto> v)) k = Some v" by simp
    ultimately show ?thesis using True 3(2,3) by (simp del: fun_upd_apply)
  next
    case False
    then have upd: "(m(k \<mapsto> v)) name = m name" by simp
    have a: "renderURN (m(k \<mapsto> v)) used' ts = renderURN m used ts"
      using 3(2,3,4) by (rule 3(1))
    have b: "renderURN (m(k \<mapsto> v)) (name # used') ts = renderURN m (name # used) ts"
      using 3(2,3,4) by (intro 3(1)) auto
    have c: "name \<in> set used' \<longleftrightarrow> name \<in> set used" using False 3(4) by blast
    show ?thesis
      by (cases "m name") (simp_all add: upd a b c del: fun_upd_apply)
  qed
qed

lemma renderURN_replaceFirst:
  "m k = None \<Longrightarrow> k \<notin> set used \<Longrightarrow>
     renderURN (m(k \<mapsto> v)) used ts = renderURN m used (replaceFirst k v ts)"
proof (induction ts arbitrary: used rule: templateString.induct)
  case 1
  then show ?case by simp
next
  case (2 c ts)
  then show ?case by simp
next
  case (3 name ts)
  show ?case
  proof (cases "name = k")
    case True
    have "renderURN (m(k \<mapsto> v)) (k # used) ts = renderURN m used ts"
      using 3(2) by (intro renderURN_used_key) auto
    moreover have "(m(k \<mapsto> v)) k = Some v" by simp
    ultimately show ?thesis using True 3(3) by (simp add: renderURN_Lits del: fun_upd_apply)
  next
    case False
    then have upd: "(m(k \<mapsto> v)) name = m name" by simp
    have a: "renderURN (m(k \<mapsto> v)) used ts = renderURN m used (replaceFirst k v ts)"
      using 3(2,3) by (rule 3(1))
    have b: "renderURN (m(k \<mapsto> v)) (name # used) ts = renderURN m (name # used) (replaceFirst k v ts)"
      using 3(2,3) False by (intro 3(1)) auto
    show ?thesis using False
      by (cases "m name") (simp_all add: upd a b del: fun_upd_apply)
  qed
qed

lemma fold_replaceFirst:
  "distinct (map fst kvs) \<Longrightarrow>
     templateString (fold (\<lambda>(k, v). replaceFirst k v) kvs ts) = renderURN (map_of kvs) [] ts"
proof (induction kvs arbitrary: ts)
  case Nil
  then show ?case by (simp add: renderURN_empty)
next
  case (Cons kv kvs)
  obtain k v where kv: "kv = (k, v)" by (cases kv)
  with Cons.prems have d: "distinct (map fst kvs)" "map_of kvs k = None"
    by (auto simp: map_of_eq_None_iff)
  have m: "map_of (kv # kvs) = (map_of kvs)(k \<mapsto> v)"
    by (simp only: kv map_of.simps fst_conv snd_conv)
  have f: "fold (\<lambda>(k, v). replaceFirst k v) (kv # kvs) ts =
             fold (\<lambda>(k, v). replaceFirst k v) kvs (replaceFirst k v ts)"
    by (simp add: kv)
  have "renderURN ((map_of kvs)(k \<mapsto> v)) [] ts = renderURN (map_of kvs) [] (replaceFirst k v ts)"
    using d(2) by (intro renderURN_replaceFirst) auto
  with Cons.IH[OF d(1), of "replaceFirst k v ts"] show ?case
    unfolding m f by (simp only:)
qed

lemma substitute_renderURN:
  assumes "wellFormed ts" "distinct (map fst kvs)" "list_all (\<lambda>(k, v). plain k \<and> plain v) kvs"
  shows "substitute kvs (templateString ts) = renderURN (map_of kvs) [] ts"
  using substitute_template[OF assms(1,3)] fold_replaceFirst[OF assms(2)] by simp

lemma templateString_nonempty: "ts \<noteq> [] \<Longrightarrow> templateString ts \<noteq> []"
  by (cases ts rule: templateString.cases) auto

lemma rangeOrder_plain:
  assumes "rangeOrder kvs m" "rangeOrder kvs' m" "list_all (\<lambda>(k, v). plain k \<and> plain v) kvs"
  shows "list_all (\<lambda>(k, v). plain k \<and> plain v) kvs'"
proof -
  have "plain k \<and> plain v" if "(k, v) \<in> set kvs'" for k v
  proof -
    from that assms(2) have "m k = Some v" by (auto simp: rangeOrder_def)
    with assms(1) have "(k, v) \<in> set kvs" by (auto simp: rangeOrder_def dest: map_of_SomeD)
    with assms(3) show ?thesis by (auto simp: list_all_iff)
  qed
  then show ?thesis by (auto simp: list_all_iff)
qed

text \<open>Claim C9 (URN rendering).  The claim is stated for every field mapping and template.
  It fails when a value brings a placeholder token with it: with the fields
  \<open>a = <b>\<close>, \<open>b = x\<close>, the template \<open><a>/<b>\<close> and the entries visited in the order
  \<open>a\<close>, \<open>b\<close>, the value of \<open>a\<close> is not inserted literally and the placeholder \<open><b>\<close> of the
  template stays, although \<open>b\<close> is a key: the result is \<open>x/<b>\<close>, not \<open><b>/x\<close>.\<close>

theorem render_resubstitutes_value:
  "rangeOrder [(''a'', ''<b>''), (''b'', ''x'')] [''b'' \<mapsto> ''x'', ''a'' \<mapsto> ''<b>''] \<and>
   URN \<lparr>Format = ''CCRN'', Fields = [''b'' \<mapsto> ''x'', ''a'' \<mapsto> ''<b>''], Raw = [],
        UrnTemplate = []\<rparr> [(''a'', ''<b>''), (''b'', ''x'')] ''<a>/<b>'' = ''x/<b>'' \<and>
   renderURN [''b'' \<mapsto> ''x'', ''a'' \<mapsto> ''<b>''] []
     [Placeholder ''a'', Lit CHR ''/'', Placeholder ''b''] = ''<b>/x''"
  by (simp add: rangeOrder_def URN_def substitute_def)

text \<open>Claim C9, as the code has it.  For a template made of literal bytes other than angle
  brackets and of placeholders \<open><name>\<close> (the template given, or the stored \<open>UrnTemplate\<close> when
  the argument is empty), and a field mapping whose keys and values contain no angle
  bracket, \<open>URN\<close> returns, whatever the order in which the map is visited, the template with
  the first occurrence of every placeholder whose name is a key replaced by the value of
  that key, inserted as it is; later occurrences and placeholders without a field are left
  as they are.\<close>

theorem render_substitutes:
  assumes "rangeOrder kvs (Fields p)"
    and "list_all (\<lambda>(k, v). plain k \<and> plain v) kvs"
    and "wellFormed ts"
    and "(if template = [] then UrnTemplate p else template) = templateString ts"
  shows "URN p kvs template = renderURN (Fields p) [] ts"
proof (cases "template = [] \<and> UrnTemplate p = []")
  case True
  with assms(4) have "ts = []" using templateString_nonempty[of ts] by auto
  with True show ?thesis by (simp add: URN_def)
next
  case False
  then have "URN p kvs template = substitute kvs (templateString ts)"
    using assms(4) by (auto simp: URN_def)
  with assms(1,2,3) substitute_renderURN[of ts kvs] show ?thesis
    by (simp add: rangeOrder_def)
qed

theorem render_substitutes_witness:
  "URN \<lparr>Format = ''CCRN'', Fields = [''ccrn'' \<mapsto> ''t.g/v1'', ''name'' \<mapsto> ''my-pod''],
        Raw = ''ccrn=t.g/v1, name=my-pod'', UrnTemplate = []\<rparr>
     [(''name'', ''my-pod''), (''ccrn'', ''t.g/v1'')] ''urn:ccrn:<ccrn>/<name>/<zone>/<name>'' =
   ''urn:ccrn:t.g/v1/my-pod/<zone>/<name>''"
proof -
  let ?p = "\<lparr>Format = ''CCRN'', Fields = [''ccrn'' \<mapsto> ''t.g/v1'', ''name'' \<mapsto> ''my-pod''],
        Raw = ''ccrn=t.g/v1, name=my-pod'', UrnTemplate = []\<rparr>"
  let ?kvs = "[(''name'', ''my-pod''), (''ccrn'', ''t.g/v1'')]"
  let ?ts = "map Lit ''urn:ccrn:'' @ [Placeholder ''ccrn'', Lit CHR ''/'', Placeholder ''name'',
        Lit CHR ''/'', Placeholder ''zone'', Lit CHR ''/'', Placeholder ''name'']"
  have 1: "rangeOrder ?kvs (Fields ?p)" by (simp add: rangeOrder_def)
  have 2: "list_all (\<lambda>(k, v). plain k \<and> plain v) ?kvs" by (simp add: plain_def)
  have 3: "wellFormed ?ts" by (simp add: plain_def)
  have 4: "(if ''urn:ccrn:<ccrn>/<name>/<zone>/<name>'' = [] then UrnTemplate ?p
            else ''urn:ccrn:<ccrn>/<name>/<zone>/<name>'') = templateString ?ts"
    by simp
  have 5: "renderURN (Fields ?p) [] ?ts = ''urn:ccrn:t.g/v1/my-pod/<zone>/<name>''" by simp
  from render_substitutes[OF 1 2 3 4] show ?thesis unfolding 5 .
qed

text \<open>Claim C10 (rendering is deterministic).  The claim includes the case of a value that
  contains the placeholder token of another field.  There the result depends on the order
  in which Go visits the map: the same fields and template give \<open>x/<b>\<close> when \<open>a\<close> is visited
  first and \<open><b>/x\<close> when \<open>b\<close> is.\<close>

theorem render_depends_on_order:
  "rangeOrder [(''a'', ''<b>''), (''b'', ''x'')] [''b'' \<mapsto> ''x'', ''a'' \<mapsto> ''<b>''] \<and>
   rangeOrder [(''b'', ''x''), (''a'', ''<b>'')] [''b'' \<mapsto> ''x'', ''a'' \<mapsto> ''<b>''] \<and>
   URN \<lparr>Format = ''CCRN'', Fields = [''b'' \<mapsto> ''x'', ''a'' \<mapsto> ''<b>''], Raw = [],
        UrnTemplate = []\<rparr> [(''a'', ''<b>''), (''b'', ''x'')] ''<a>/<b>'' = ''x/<b>'' \<and>
   URN \<lparr>Format = ''CCRN'', Fields = [''b'' \<mapsto> ''x'', ''a'' \<mapsto> ''<b>''], Raw = [],
        UrnTemplate = []\<rparr> [(''b'', ''x''), (''a'', ''<b>'')] ''<a>/<b>'' = ''<b>/x''"
  by (auto simp: rangeOrder_def URN_def substitute_def fun_eq_iff)

text \<open>Claim C10, as the code has it.  For a template made of literal bytes other than angle
  brackets and of placeholders \<open><name>\<close> (the template given, or the stored \<open>UrnTemplate\<close> when
  the argument is empty), and a field mapping whose keys and values contain no angle
  bracket, any two orders in which the map may be visited give the same string.\<close>

theorem render_order_independent:
  assumes "rangeOrder kvs1 (Fields p)" and "rangeOrder kvs2 (Fields p)"
    and "list_all (\<lambda>(k, v). plain k \<and> plain v) kvs1"
    and "wellFormed ts"
    and "(if template = [] then UrnTemplate p else template) = templateString ts"
  shows "URN p kvs1 template = URN p kvs2 template"
proof (cases "template = [] \<and> UrnTemplate p = []")
  case True
  then show ?thesis by (simp add: URN_def)
next
  case False
  then have "URN p kvs1 template = substitute kvs1 (templateString ts)"
    and "URN p kvs2 template = substitute kvs2 (templateString ts)"
    using assms(5) by (auto simp: URN_def)
  with assms(1,2,3,4) substitute_renderURN[of ts kvs1] substitute_renderURN[of ts kvs2]
    rangeOrder_plain[OF assms(1,2,3)]
  show ?thesis by (simp add: rangeOrder_def)
qed


theorem render_order_independent_witness:
  "URN \<lparr>Format = ''CCRN'', Fields = [''ccrn'' \<mapsto> ''t.g/v1'', ''name'' \<mapsto> ''my-pod''],
        Raw = ''ccrn=t.g/v1, name=my-pod'', UrnTemplate = []\<rparr>
     [(''name'', ''my-pod''), (''ccrn'', ''t.g/v1'')] ''urn:ccrn:<ccrn>/<name>'' =
   URN \<lparr>Format = ''CCRN'', Fields = [''ccrn'' \<mapsto> ''t.g/v1'', ''name'' \<mapsto> ''my-pod''],
        Raw = ''ccrn=t.g/v1, name=my-pod'', UrnTemplate = []\<rparr>
     [(''ccrn'', ''t.g/v1''), (''name'', ''my-pod'')] ''urn:ccrn:<ccrn>/<name>''"
proof -
  let ?p = "\<lparr>Format = ''CCRN'', Fields = [''ccrn'' \<mapsto> ''t.g/v1'', ''name'' \<mapsto> ''my-pod''],
        Raw = ''ccrn=t.g/v1, name=my-pod'', UrnTemplate = []\<rparr>"
  let ?kvs1 = "[(''name'', ''my-pod''), (''ccrn'', ''t.g/v1'')]"
  let ?kvs2 = "[(''ccrn'', ''t.g/v1''), (''name'', ''my-pod'')]"
  let ?ts = "map Lit ''urn:ccrn:'' @ [Placeholder ''ccrn'', Lit CHR ''/'', Placeholder ''name'']"
  have 1: "rangeOrder ?kvs1 (Fields ?p)" by (simp add: rangeOrder_def)
  have 2: "rangeOrder ?kvs2 (Fields ?p)" by (auto simp: rangeOrder_def fun_eq_iff)
  have 3: "list_all (\<lambda>(k, v). plain k \<and> plain v) ?kvs1" by (simp add: plain_def)
  have 4: "wellFormed ?ts" by (simp add: plain_def)
  have 5: "(if ''urn:ccrn:<ccrn>/<name>'' = [] then UrnTemplate ?p
            else ''urn:ccrn:<ccrn>/<name>'') = templateString ?ts"
    by simp
  from render_order_independent[OF 1 2 3 4 5] show ?thesis .
qed

section \<open>Loading a batch of definitions\<close>

lemma createSchemaValidator_ccrnGroup:
  "createSchemaValidator w fb crdKey version = Inr fb' \<Longrightarrow> ccrnGroup fb' = ccrnGroup fb"
  by (auto simp: createSchemaValidator_def split: option.splits)

lemma storeVersions_ccrnGroup:
  "storeVersions w crd vs fb = Inr fb' \<Longrightarrow> ccrnGroup fb' = ccrnGroup fb"
proof (induction vs arbitrary: fb)
  case Nil
  then show ?case by simp
next
  case (Cons version vs)
  show ?case
  proof (cases "Served version")
    case False
    with Cons show ?thesis by simp
  next
    case True
    with Cons.prems obtain s where s: "Schema version = Some s"
      by (cases "Schema version") auto
    from Cons.prems True s obtain fb2 where st: "storeVersions w crd vs fb2 = Inr fb'"
      and g: "ccrnGroup fb2 = ccrnGroup fb"
      by (cases "createSchemaValidator w
           (fb\<lparr>crds := (crds fb)(getCRDKey w (specGroup crd) (versionName version) (namesKind crd) \<mapsto>
              \<lparr>infoName = metaName crd, infoPlural = namesPlural crd,
               infoSingular = namesSingular crd, infoGroup = specGroup crd,
               infoKind = namesKind crd, infoVersion = versionName version,
               infoSchema = OpenAPIV3Schema s,
               URNFormat = extractURNTemplate crd (versionName version)\<rparr>)\<rparr>)
           (getCRDKey w (specGroup crd) (versionName version) (namesKind crd)) version")
        (auto simp: Let_def dest: createSchemaValidator_ccrnGroup)
    from Cons.IH[OF st] g show ?thesis by simp
  qed
qed

lemma processSingleDocument_result:
  assumes "processSingleDocument w fb document filePath = Inr (fb', res)"
  shows "ccrnGroup fb' = ccrnGroup fb"
    and "(\<exists>err. res = Inl err) \<longleftrightarrow>
           (case Unmarshal w document of None \<Rightarrow> True
            | Some crd \<Rightarrow> validateCRDStructure crd \<noteq> None)"
    and "(\<exists>crd. res = Inr (Some crd)) \<longleftrightarrow>
           (case Unmarshal w document of None \<Rightarrow> False
            | Some crd \<Rightarrow> validateCRDStructure crd = None \<and> sublist (ccrnGroup fb) (specGroup crd))"
  using assms
  by (auto simp: processSingleDocument_def isCCRNRelevant_def storeCRD_def
      split: option.splits if_splits sum.splits dest: storeVersions_ccrnGroup)

lemma processDocuments_counts:
  assumes "processDocuments w filePath i ds (fb, loaded, r) = Inr (fb', loaded', r')"
  shows "ccrnGroup fb' = ccrnGroup fb \<and>
         ProcessedCRDs r' = ProcessedCRDs r + length (filter (loadable w (ccrnGroup fb)) ds) \<and>
         length (Errors r') = length (Errors r) + length (filter (rejected w) ds) \<and>
         ErrorCount r' = ErrorCount r + length (filter (rejected w) ds)"
  using assms
proof (induction ds arbitrary: i fb loaded r)
  case Nil
  then show ?case by simp
next
  case (Cons d ds)
  show ?case
  proof (cases "isEmptyDocument d")
    case True
    with Cons.prems have "processDocuments w filePath (Suc i) ds (fb, loaded, r) = Inr (fb', loaded', r')"
      by simp
    from Cons.IH[OF this] True show ?thesis by (simp add: loadable_def rejected_def)
  next
    case False
    with Cons.prems obtain fb1 res where one: "processSingleDocument w fb d filePath = Inr (fb1, res)"
      by (auto split: sum.splits)
    note facts = processSingleDocument_result[OF one]
    show ?thesis
    proof (cases res)
      case (Inl err)
      with Cons.prems False one
      have "processDocuments w filePath (Suc i) ds
              (fb1, loaded, r\<lparr>Errors := Errors r @ [DocumentFailed filePath i err],
                               ErrorCount := ErrorCount r + 1\<rparr>) = Inr (fb', loaded', r')"
        by simp
      from Cons.IH[OF this] facts Inl False show ?thesis
        by (auto simp: loadable_def rejected_def split: option.splits)
    next
      case (Inr oc)
      show ?thesis
      proof (cases oc)
        case None
        with Cons.prems False one Inr
        have "processDocuments w filePath (Suc i) ds
                (fb1, loaded, r\<lparr>SkippedCRDs := SkippedCRDs r + 1\<rparr>) = Inr (fb', loaded', r')"
          by simp
        from Cons.IH[OF this] facts Inr None False show ?thesis
          by (auto simp: loadable_def rejected_def split: option.splits)
      next
        case (Some crd)
        with Cons.prems False one Inr
        have "processDocuments w filePath (Suc i) ds
                (fb1, loaded @ [crd],
                 r\<lparr>ProcessedCRDs := ProcessedCRDs r + 1,
                   LoadedCRDKeys := LoadedCRDKeys r @
                     map (\<lambda>version. getCRDKey w (specGroup crd) (versionName version) (namesKind crd))
                       (filter Served (specVersions crd))\<rparr>) = Inr (fb', loaded', r')"
          by simp
        from Cons.IH[OF this] facts Inr Some False show ?thesis
          by (auto simp: loadable_def rejected_def split: option.splits)
      qed
    qed
  qed
qed

lemma processFile_counts:
  assumes "processFile w filePath (fb, r) = Inr (fb', r')"
  shows "ccrnGroup fb' = ccrnGroup fb \<and>
         ProcessedCRDs r' = ProcessedCRDs r +
           (case documentsOf w filePath of None \<Rightarrow> 0
            | Some ds \<Rightarrow> length (filter (loadable w (ccrnGroup fb)) ds)) \<and>
         length (Errors r') = length (Errors r) +
           (case documentsOf w filePath of None \<Rightarrow> 1
            | Some ds \<Rightarrow> length (filter (rejected w) ds)) \<and>
         ErrorCount r' = ErrorCount r +
           (case documentsOf w filePath of None \<Rightarrow> 1
            | Some ds \<Rightarrow> length (filter (rejected w) ds))"
proof (cases "documentsOf w filePath")
  case None
  with assms show ?thesis
    by (auto simp: processFile_def documentsOf_def Let_def split: option.splits)
next
  case (Some ds)
  then obtain content where c: "ReadFile w filePath = Some content"
    "splitYAMLDocuments w content = Some ds"
    by (auto simp: documentsOf_def split: option.splits)
  with assms obtain fb1 loaded1 where
    pd: "processDocuments w filePath 0 ds (fb, [], r\<lparr>ProcessedFiles := ProcessedFiles r + 1\<rparr>) =
           Inr (fb1, loaded1, r')"
    and fb': "ccrnGroup fb' = ccrnGroup fb1"
    by (auto simp: processFile_def Let_def split: sum.splits if_splits)
  from processDocuments_counts[OF pd] fb' Some show ?thesis by simp
qed

lemma processFiles_counts:
  assumes "processFiles w files (fb, r) = Inr (fb', r')"
  shows "ccrnGroup fb' = ccrnGroup fb \<and>
         ProcessedCRDs r' = ProcessedCRDs r + loadableCount w (ccrnGroup fb) files \<and>
         length (Errors r') = length (Errors r) + rejectionCount w files \<and>
         ErrorCount r' = ErrorCount r + rejectionCount w files"
  using assms
proof (induction files arbitrary: fb r)
  case Nil
  then show ?case by simp
next
  case (Cons f fs)
  show ?case
  proof (cases "isYAMLFile w f")
    case False
    with Cons show ?thesis by simp
  next
    case True
    with Cons.prems obtain fb1 r1 where one: "processFile w f (fb, r) = Inr (fb1, r1)"
      and rest: "processFiles w fs (fb1, r1) = Inr (fb', r')"
      by (auto split: sum.splits)
    from processFile_counts[OF one] Cons.IH[OF rest] True show ?thesis by simp
  qed
qed

lemma LoadCRDs_when_returned:
  assumes "LoadCRDs w pattern fb = Inr (fb', err)"
  shows "(err \<noteq> None \<longleftrightarrow>
            (case Glob w pattern of
               None \<Rightarrow> True
             | Some files \<Rightarrow>
                 files = [] \<or>
                 (loadableCount w (ccrnGroup fb) files = 0 \<and> 0 < rejectionCount w files))) \<and>
         (\<forall>files. Glob w pattern = Some files \<and> 0 < loadableCount w (ccrnGroup fb) files
            \<longrightarrow> err = None) \<and>
         (\<forall>files. Glob w pattern = Some files \<longrightarrow>
            (\<exists>st r. processFiles w files (fb, newResult) = Inr (st, r) \<and>
               ProcessedCRDs r = loadableCount w (ccrnGroup fb) files \<and>
               length (Errors r) = rejectionCount w files \<and>
               ErrorCount r = rejectionCount w files))"
proof (cases "Glob w pattern")
  case None
  with assms show ?thesis by (auto simp: LoadCRDs_def)
next
  case (Some files)
  show ?thesis
  proof (cases "files = []")
    case True
    with Some assms show ?thesis by (auto simp: LoadCRDs_def newResult_def)
  next
    case False
    with Some assms obtain st r where pf: "processFiles w files (fb, newResult) = Inr (st, r)"
      by (auto simp: LoadCRDs_def split: sum.splits)
    from processFiles_counts[OF pf]
    have c: "ProcessedCRDs r = loadableCount w (ccrnGroup fb) files"
      "length (Errors r) = rejectionCount w files" "ErrorCount r = rejectionCount w files"
      by (simp_all add: newResult_def)
    from assms Some False pf
    have "err \<noteq> None \<longleftrightarrow> ProcessedCRDs r = 0 \<and> Errors r \<noteq> []"
      by (auto simp: LoadCRDs_def Let_def split: if_splits)
    moreover have "Errors r \<noteq> [] \<longleftrightarrow> 0 < rejectionCount w files"
      using c(2) length_greater_0_conv[of "Errors r"] by simp
    ultimately show ?thesis using c Some False pf by auto
  qed
qed



text \<open>When every served version has a \<open>schema\<close> object, nothing panics and the loops run to
  their end.\<close>

lemma storeVersions_returns:
  "list_all (\<lambda>version. Served version \<longrightarrow> Schema version \<noteq> None) vs \<Longrightarrow>
     \<exists>fb'. storeVersions w crd vs fb = Inr fb'"
proof (induction vs arbitrary: fb)
  case Nil
  then show ?case by simp
next
  case (Cons version vs)
  then have rest: "\<And>fb. \<exists>fb'. storeVersions w crd vs fb = Inr fb'" by simp
  show ?case
  proof (cases "Served version")
    case False
    with rest show ?thesis by simp
  next
    case True
    with Cons.prems obtain s where "Schema version = Some s" by auto
    with True rest show ?thesis by (simp add: Let_def)
  qed
qed

lemma processSingleDocument_returns:
  assumes "storable w (ccrnGroup fb) document" "\<not> isEmptyDocument document"
  shows "\<exists>fb' res. processSingleDocument w fb document filePath = Inr (fb', res)"
proof (cases "Unmarshal w document")
  case None
  then show ?thesis by (simp add: processSingleDocument_def)
next
  case (Some crd)
  show ?thesis
  proof (cases "validateCRDStructure crd = None \<and> isCCRNRelevant fb crd")
    case False
    with Some show ?thesis by (auto simp: processSingleDocument_def split: option.splits)
  next
    case True
    with Some assms have "servedVersionsHaveSchema crd"
      by (simp add: storable_def loadable_def isCCRNRelevant_def)
    then obtain fb' where "storeCRD w crd fb = Inr fb'"
      using storeVersions_returns[of "specVersions crd" w crd fb]
      by (auto simp: servedVersionsHaveSchema_def storeCRD_def)
    with Some True show ?thesis by (simp add: processSingleDocument_def)
  qed
qed

lemma processDocuments_returns:
  "list_all (storable w (ccrnGroup fb)) ds \<Longrightarrow>
     \<exists>st. processDocuments w filePath i ds (fb, loaded, r) = Inr st"
proof (induction ds arbitrary: i fb loaded r)
  case Nil
  then show ?case by simp
next
  case (Cons d ds)
  show ?case
  proof (cases "isEmptyDocument d")
    case True
    with Cons show ?thesis by simp
  next
    case False
    with Cons.prems obtain fb1 res where
      one: "processSingleDocument w fb d filePath = Inr (fb1, res)"
      using processSingleDocument_returns[where w = w and fb = fb and document = d and filePath = filePath]
      by auto
    from processSingleDocument_result(1)[OF one] Cons.prems
    have "list_all (storable w (ccrnGroup fb1)) ds" by simp
    from Cons.IH[OF this] have
      rest: "\<And>i loaded r. \<exists>st. processDocuments w filePath i ds (fb1, loaded, r) = Inr st" .
    show ?thesis
    proof (cases res)
      case (Inl err)
      with False one rest show ?thesis by simp
    next
      case (Inr oc)
      with False one rest show ?thesis by (cases oc) simp_all
    qed
  qed
qed

lemma processFile_returns:
  assumes "case documentsOf w filePath of None \<Rightarrow> True
           | Some ds \<Rightarrow> list_all (storable w (ccrnGroup fb)) ds"
  shows "\<exists>st. processFile w filePath (fb, r) = Inr st"
proof (cases "documentsOf w filePath")
  case None
  then show ?thesis
    by (auto simp: processFile_def documentsOf_def Let_def split: option.splits)
next
  case (Some ds)
  then obtain content where c: "ReadFile w filePath = Some content"
    "splitYAMLDocuments w content = Some ds"
    by (auto simp: documentsOf_def split: option.splits)
  from Some assms have "list_all (storable w (ccrnGroup fb)) ds" by simp
  from processDocuments_returns[OF this, of filePath 0 "[]" "r\<lparr>ProcessedFiles := ProcessedFiles r + 1\<rparr>"]
  obtain fb1 loaded1 r1 where
    "processDocuments w filePath 0 ds (fb, [], r\<lparr>ProcessedFiles := ProcessedFiles r + 1\<rparr>) =
       Inr (fb1, loaded1, r1)"
    by (metis prod_cases3)
  with c show ?thesis by (simp add: processFile_def Let_def)
qed

lemma processFiles_returns:
  "storableBatch w (ccrnGroup fb) files \<Longrightarrow> \<exists>st. processFiles w files (fb, r) = Inr st"
proof (induction files arbitrary: fb r)
  case Nil
  then show ?case by simp
next
  case (Cons f fs)
  show ?case
  proof (cases "isYAMLFile w f")
    case False
    with Cons show ?thesis by simp
  next
    case True
    with Cons.prems obtain fb1 r1 where one: "processFile w f (fb, r) = Inr (fb1, r1)"
      using processFile_returns[where w = w and filePath = f and fb = fb and r = r] by auto
    from processFile_counts[OF one] Cons.prems have "storableBatch w (ccrnGroup fb1) fs" by simp
    from Cons.IH[OF this, of r1] True one show ?thesis by simp
  qed
qed

lemma LoadCRDs_returns:
  assumes "case Glob w pattern of None \<Rightarrow> True
           | Some files \<Rightarrow> storableBatch w (ccrnGroup fb) files"
  shows "\<exists>fb' err. LoadCRDs w pattern fb = Inr (fb', err)"
proof (cases "Glob w pattern")
  case None
  then show ?thesis by (simp add: LoadCRDs_def)
next
  case (Some files)
  with assms obtain st r where "processFiles w files (fb, newResult) = Inr (st, r)"
    using processFiles_returns[where w = w and fb = fb and files = files and r = newResult] by auto
  with Some show ?thesis by (simp add: LoadCRDs_def Let_def)
qed

text \<open>Claim C6 (load semantics of the static directory).  The claim lets \<open>LoadCRDs\<close> return
  an error only when no definition was loaded and at least one structural error occurred.
  \<open>LoadCRDs\<close> also returns an error when the pattern matches no file: nothing is read, no
  error is recorded, and the call fails.\<close>

theorem LoadCRDs_no_files_is_an_error:
  "Glob emptyDirectory ''crds/*.yaml'' = Some [] \<and>
   LoadCRDs emptyDirectory ''crds/*.yaml'' (NewOfflineBackend ''ccrn.example.com'') =
     Inr (NewOfflineBackend ''ccrn.example.com'', Some (NoFilesFound ''crds/*.yaml'')) \<and>
   processFiles emptyDirectory [] (NewOfflineBackend ''ccrn.example.com'', newResult) =
     Inr (NewOfflineBackend ''ccrn.example.com'', newResult) \<and>
   Errors newResult = []"
  by (simp add: LoadCRDs_def emptyDirectory_def newResult_def)

text \<open>Claim C6, as the code has it.  Take a batch in which every served version of every
  loadable definition has a \<open>schema\<close> object.  Then \<open>LoadCRDs\<close> returns, and it returns an
  error exactly when the pattern is malformed, or matches no file, or no document of the
  matched YAML files is a loadable definition and at least one rejection occurred (a
  document that is not a valid definition, or a file that cannot be read or split).
  Whenever at least one definition is loadable the call succeeds.  A rejection does not
  abort the batch: all matched files are processed to the end, every rejection is recorded
  as one error, and every loadable document is counted as loaded.\<close>

theorem LoadCRDs_result:
  assumes "case Glob w pattern of None \<Rightarrow> True
           | Some files \<Rightarrow> storableBatch w (ccrnGroup fb) files"
  shows "\<exists>fb' err. LoadCRDs w pattern fb = Inr (fb', err) \<and>
           (err \<noteq> None \<longleftrightarrow>
              (case Glob w pattern of
                 None \<Rightarrow> True
               | Some files \<Rightarrow>
                   files = [] \<or>
                   (loadableCount w (ccrnGroup fb) files = 0 \<and> 0 < rejectionCount w files))) \<and>
           (\<forall>files. Glob w pattern = Some files \<and> 0 < loadableCount w (ccrnGroup fb) files
              \<longrightarrow> err = None) \<and>
           (\<forall>files. Glob w pattern = Some files \<longrightarrow>
              (\<exists>st r. processFiles w files (fb, newResult) = Inr (st, r) \<and>
                 ProcessedCRDs r = loadableCount w (ccrnGroup fb) files \<and>
                 length (Errors r) = rejectionCount w files \<and>
                 ErrorCount r = rejectionCount w files))"
proof -
  from LoadCRDs_returns[OF assms] obtain fb' err where
    l: "LoadCRDs w pattern fb = Inr (fb', err)" by blast
  from LoadCRDs_when_returned[OF l] l show ?thesis by blast
qed

theorem LoadCRDs_result_witness:
  "\<exists>fb'. LoadCRDs oneGoodOneBad ''crds/*.yaml'' (NewOfflineBackend ''ccrn.example.com'') =
           Inr (fb', None) \<and>
         Glob oneGoodOneBad ''crds/*.yaml'' = Some [''crds/a.yaml''] \<and>
         storableBatch oneGoodOneBad ''ccrn.example.com'' [''crds/a.yaml''] \<and>
         loadableCount oneGoodOneBad ''ccrn.example.com'' [''crds/a.yaml''] = 1 \<and>
         rejectionCount oneGoodOneBad [''crds/a.yaml''] = 1"
proof -
  have g: "Glob oneGoodOneBad ''crds/*.yaml'' = Some [''crds/a.yaml'']"
    by (simp add: oneGoodOneBad_def)
  have s: "storableBatch oneGoodOneBad ''ccrn.example.com'' [''crds/a.yaml'']"
    by code_simp
  have c: "loadableCount oneGoodOneBad ''ccrn.example.com'' [''crds/a.yaml''] = 1"
    "rejectionCount oneGoodOneBad [''crds/a.yaml''] = 1"
    by code_simp+
  have "case Glob oneGoodOneBad ''crds/*.yaml'' of None \<Rightarrow> True
        | Some files \<Rightarrow>
            storableBatch oneGoodOneBad
              (ccrnGroup (NewOfflineBackend ''ccrn.example.com'' :: string FilesystemBackend)) files"
    using g s by (simp add: NewOfflineBackend_def)
  from LoadCRDs_result[OF this] obtain fb' err where
    l: "LoadCRDs oneGoodOneBad ''crds/*.yaml'' (NewOfflineBackend ''ccrn.example.com'') = Inr (fb', err)"
    and e: "\<forall>files. Glob oneGoodOneBad ''crds/*.yaml'' = Some files \<and>
              0 < loadableCount oneGoodOneBad
                    (ccrnGroup (NewOfflineBackend ''ccrn.example.com'' :: string FilesystemBackend)) files
              \<longrightarrow> err = None"
    by blast
  from e g c have "err = None" by (simp add: NewOfflineBackend_def)
  with l g s c show ?thesis by blast
qed

end
